theory Spec2Isabelle
  imports Complex_Main "HOL-Library.Word" "HOL-Library.Signed_Division"
begin

section \<open>Failures of the C++ code as values\<close>

text \<open>
  The functions of \<^verbatim>\<open>utils.cpp\<close> can end in other ways than returning:
  a failed \<^verbatim>\<open>assert\<close> (the process aborts; assertions are taken as compiled in, as in
  the Debug build the repository's test workflow uses), a thrown \<^verbatim>\<open>std::runtime_error\<close>
  (the caller may catch it), and operations C++ leaves undefined: a read or write
  outside a vector or span, a division \<^verbatim>\<open>std::div\<close> cannot represent, a signed sum
  beyond the largest \<^verbatim>\<open>int32\<close>, the use of a pointer that holds no object. Each is a
  value of \<open>failure\<close>; a function that can fail returns \<open>failure + 'a\<close> with \<open>Inl\<close> for
  the failure.
\<close>

datatype failure =
    Assert_one_incident_cell
  | Assert_entity_in_cell
  | Assert_precondition
  | Runtime_error string
  | Out_of_range
  | Undefined_division
  | Signed_overflow
  | Invalid_pointer
  | Shape_mismatch

text \<open>A loop over a list whose body can fail: the first failure ends the loop.\<close>

fun for_each :: "('a \<Rightarrow> 's \<Rightarrow> failure + 's) \<Rightarrow> 'a list \<Rightarrow> 's \<Rightarrow> failure + 's" where
  "for_each f [] s = Inr s"
| "for_each f (x # xs) s = (case f x s of Inl e \<Rightarrow> Inl e | Inr s' \<Rightarrow> for_each f xs s')"

text \<open>
  Values of \<^verbatim>\<open>std::int32_t\<close> (cells, dof blocks, ranks, entities) are integers; the only
  arithmetic the modelled code does on them is the division of \<^verbatim>\<open>std::div\<close>. A value
  used as an index is in range when it is not negative and below the length.
\<close>

definition in_range :: "int \<Rightarrow> nat \<Rightarrow> bool" where
  "in_range i n = (0 \<le> i \<and> nat i < n)"

definition read_at :: "'a list \<Rightarrow> int \<Rightarrow> failure + 'a" where
  "read_at xs i = (if in_range i (length xs) then Inr (xs ! nat i) else Inl Out_of_range)"

section \<open>Adjacency lists\<close>

text \<open>
  Modelled from the spec: the adjacency lists of the mesh library
  (\<^verbatim>\<open>dolfinx::graph::AdjacencyList\<close>, not part of this repository), which section 6 uses
  as \<^verbatim>\<open>links(entity) -> entities\<close>. The container holds a flat data array and an
  offsets array; the links of node \<open>i\<close> are the data from \<open>offsets[i]\<close> up to
  \<open>offsets[i + 1]\<close>, and there is one node less than offsets.
\<close>

record adjacency_list =
  array :: "int list"
  offsets :: "nat list"

definition num_nodes :: "adjacency_list \<Rightarrow> nat" where
  "num_nodes a = length (offsets a) - 1"

definition links :: "adjacency_list \<Rightarrow> nat \<Rightarrow> int list" where
  "links a node =
     take (offsets a ! Suc node - offsets a ! node) (drop (offsets a ! node) (array a))"

text \<open>\<^verbatim>\<open>links\<close> of a node given as an \<^verbatim>\<open>int32\<close> value that may not be a node.\<close>

definition links_at :: "adjacency_list \<Rightarrow> int \<Rightarrow> failure + int list" where
  "links_at a node =
     (if in_range node (num_nodes a) then Inr (links a (nat node)) else Inl Out_of_range)"

section \<open>The sparsity pattern of a constrained form (\<^verbatim>\<open>create_sparsity_pattern\<close>)\<close>

text \<open>
  Modelled from the spec: the sparsity pattern container of the linear algebra
  backend (\<^verbatim>\<open>dolfinx::la::SparsityPattern\<close>, not part of this repository), with the
  operation \<^verbatim>\<open>insert(row_blocks, col_blocks)\<close> of section 6. A pattern is the list of
  (row, column) entries inserted so far; \<^verbatim>\<open>insert\<close> adds every pair of a row block and
  a column block. The set of the list is the pattern "as a set of entries".
\<close>

type_synonym sparsity_pattern = "(int \<times> int) list"

definition pattern_insert :: "sparsity_pattern \<Rightarrow> int list \<Rightarrow> int list \<Rightarrow> sparsity_pattern" where
  "pattern_insert pattern rows cols = pattern @ List.product rows cols"

text \<open>
  What the function reads of a function space: the cell dofs of its dofmap (one row
  of dof blocks per cell) and the block size of its index map.
\<close>

record function_space =
  cell_dofs :: "int list list"
  index_map_bs :: int

text \<open>
  What the function reads of a \<^verbatim>\<open>MultiPointConstraint\<close>: its function space, the
  map from cells to the slaves in each cell, and the map from slaves to their masters.
\<close>

record multi_point_constraint =
  mpc_function_space :: function_space
  cell_to_slaves :: adjacency_list
  masters :: adjacency_list

text \<open>
  The constraints are passed as \<^verbatim>\<open>std::shared_ptr\<close> and compared as pointers
  (\<^verbatim>\<open>mpc0 == mpc1\<close>): a pointer is an address, the objects live in a store, and two
  addresses may hold equal objects.
\<close>

type_synonym mpc_ptr = nat
type_synonym mpc_store = "mpc_ptr \<Rightarrow> multi_point_constraint option"

definition deref :: "mpc_store \<Rightarrow> mpc_ptr \<Rightarrow> failure + multi_point_constraint" where
  "deref store ptr = (case store ptr of None \<Rightarrow> Inl Invalid_pointer | Some mpc \<Rightarrow> Inr mpc)"

text \<open>
  \<^verbatim>\<open>std::div(master, bs)\<close>: quotient truncated towards zero and remainder; undefined
  when the quotient cannot be represented (division by 0, and the least \<^verbatim>\<open>int\<close> by -1).
\<close>

definition std_div :: "int \<Rightarrow> int \<Rightarrow> failure + int \<times> int" where
  "std_div x y =
     (if y = 0 \<or> (x = - (2 ^ 31) \<and> y = - 1) then Inl Undefined_division
      else Inr (x sdiv y, x smod y))"

text \<open>
  The inner loops of \<^verbatim>\<open>pattern_populator\<close> that flatten the masters of the slaves of
  one cell: for each slave, for each of its masters, the quotient of the master by the
  block size is pushed to the back of \<^verbatim>\<open>flattened_masters\<close>.
\<close>

definition push_master_block :: "int \<Rightarrow> int \<Rightarrow> int list \<Rightarrow> failure + int list" where
  "push_master_block bs master flattened_masters =
     (case std_div master bs of
        Inl e \<Rightarrow> Inl e
      | Inr d \<Rightarrow> Inr (flattened_masters @ [fst d]))"

definition flatten_slave :: "multi_point_constraint \<Rightarrow> int \<Rightarrow> int list \<Rightarrow> failure + int list" where
  "flatten_slave mpc slave flattened_masters =
     (case links_at (masters mpc) slave of
        Inl e \<Rightarrow> Inl e
      | Inr ms \<Rightarrow>
          for_each (push_master_block (index_map_bs (mpc_function_space mpc))) ms
            flattened_masters)"

text \<open>
  The loops over \<open>j\<close> and \<open>k = j + 1, ...\<close>: the pattern inserter gets the master block
  \<open>j\<close> and the cell dofs, the master inserter gets the block \<open>k\<close> and the block \<open>j\<close>.
\<close>

type_synonym inserter = "sparsity_pattern \<Rightarrow> int list \<Rightarrow> int list \<Rightarrow> sparsity_pattern"

definition insert_masters :: "inserter \<Rightarrow> inserter \<Rightarrow> int list \<Rightarrow> int list \<Rightarrow> sparsity_pattern \<Rightarrow> sparsity_pattern" where
  "insert_masters pattern_inserter master_inserter cell_dofs_i flattened_masters pattern =
     fold (\<lambda>j pat.
        fold (\<lambda>k pat'. master_inserter pat' [flattened_masters ! k] [flattened_masters ! j])
          [Suc j..<length flattened_masters]
          (pattern_inserter pat [flattened_masters ! j] cell_dofs_i))
       [0..<length flattened_masters] pattern"

text \<open>The body of the loop over the cells \<open>i\<close> of \<^verbatim>\<open>cell_to_slaves\<close>.\<close>

definition populate_cell :: "multi_point_constraint \<Rightarrow> multi_point_constraint \<Rightarrow> inserter \<Rightarrow> inserter \<Rightarrow> nat \<Rightarrow> sparsity_pattern \<Rightarrow> failure + sparsity_pattern" where
  "populate_cell mpc mpc_off_axis pattern_inserter master_inserter i pattern =
     (let slaves = links (cell_to_slaves mpc) i in
      if slaves = [] then Inr pattern
      else
        case read_at (cell_dofs (mpc_function_space mpc_off_axis)) (int i) of
          Inl e \<Rightarrow> Inl e
        | Inr cell_dofs_i \<Rightarrow>
            (case for_each (flatten_slave mpc) slaves [] of
               Inl e \<Rightarrow> Inl e
             | Inr flattened_masters \<Rightarrow>
                 Inr (insert_masters pattern_inserter master_inserter cell_dofs_i
                        flattened_masters pattern)))"

definition pattern_populator :: "sparsity_pattern \<Rightarrow> multi_point_constraint \<Rightarrow> multi_point_constraint \<Rightarrow> inserter \<Rightarrow> inserter \<Rightarrow> failure + sparsity_pattern" where
  "pattern_populator pattern mpc mpc_off_axis pattern_inserter master_inserter =
     for_each (populate_cell mpc mpc_off_axis pattern_inserter master_inserter)
       [0..<num_nodes (cell_to_slaves mpc)] pattern"

text \<open>The four callbacks of \<^verbatim>\<open>create_sparsity_pattern\<close>.\<close>

definition square_inserter :: inserter where
  "square_inserter pattern dofs_m dofs_s =
     pattern_insert (pattern_insert pattern dofs_m dofs_s) dofs_s dofs_m"

definition do_nothing_inserter :: inserter where
  "do_nothing_inserter pattern dofs_m dofs_s = pattern"

definition row_inserter :: inserter where
  "row_inserter pattern dofs_m dofs_s = pattern_insert pattern dofs_m dofs_s"

definition column_inserter :: inserter where
  "column_inserter pattern dofs_m dofs_s = pattern_insert pattern dofs_s dofs_m"

text \<open>The two branches after the standard pattern is built.\<close>

definition square_path :: "sparsity_pattern \<Rightarrow> multi_point_constraint \<Rightarrow> multi_point_constraint \<Rightarrow> failure + sparsity_pattern" where
  "square_path pattern m0 m1 = pattern_populator pattern m0 m1 square_inserter square_inserter"

definition rectangular_path :: "sparsity_pattern \<Rightarrow> multi_point_constraint \<Rightarrow> multi_point_constraint \<Rightarrow> failure + sparsity_pattern" where
  "rectangular_path pattern m0 m1 =
     (case pattern_populator pattern m0 m1 row_inserter do_nothing_inserter of
        Inl e \<Rightarrow> Inl e
      | Inr pattern' \<Rightarrow> pattern_populator pattern' m1 m0 column_inserter do_nothing_inserter)"

text \<open>
  The bilinear form: only its rank is read here. \<^verbatim>\<open>build_standard_pattern\<close> is declared
  in a header of the repository that is not among the sources; it is a parameter of the
  model, a function from the form and the new, empty pattern to the pattern of the
  unconstrained form.
\<close>

record form =
  form_rank :: int

definition not_bilinear :: string where
  "not_bilinear = ''Cannot create sparsity pattern. Form is not a bilinear form''"

definition create_sparsity_pattern :: "(form \<Rightarrow> sparsity_pattern \<Rightarrow> sparsity_pattern) \<Rightarrow> mpc_store \<Rightarrow> form \<Rightarrow> mpc_ptr \<Rightarrow> mpc_ptr \<Rightarrow> failure + sparsity_pattern" where
  "create_sparsity_pattern build_standard_pattern store a mpc0 mpc1 =
     (if form_rank a \<noteq> 2 then Inl (Runtime_error not_bilinear)
      else
        case deref store mpc0 of
          Inl e \<Rightarrow> Inl e
        | Inr m0 \<Rightarrow>
            (case deref store mpc1 of
               Inl e \<Rightarrow> Inl e
             | Inr m1 \<Rightarrow>
                 (let pattern = build_standard_pattern a [] in
                  if mpc0 = mpc1 then square_path pattern m0 m1
                  else rectangular_path pattern m0 m1)))"

text \<open>
  The flattened master blocks of cell \<open>i\<close> as the specification describes them: the masters of
  each slave of the cell, in order, each divided by the block size.
\<close>

definition master_blocks :: "multi_point_constraint \<Rightarrow> int \<Rightarrow> int list" where
  "master_blocks mpc slave =
     map (\<lambda>master. master sdiv index_map_bs (mpc_function_space mpc))
       (links (masters mpc) (nat slave))"

definition flattened_masters :: "multi_point_constraint \<Rightarrow> nat \<Rightarrow> int list" where
  "flattened_masters mpc i = concat (map (master_blocks mpc) (links (cell_to_slaves mpc) i))"

text \<open>
  The inputs on which \<^verbatim>\<open>pattern_populator\<close> stays within what C++ defines: every slave
  of a cell is a node of the masters map, every division is defined, and a cell with
  slaves is a cell of the off-axis dofmap.
\<close>

definition slave_ok :: "multi_point_constraint \<Rightarrow> int \<Rightarrow> bool" where
  "slave_ok mpc slave =
     (in_range slave (num_nodes (masters mpc)) \<and>
      list_all (\<lambda>master. \<not> (index_map_bs (mpc_function_space mpc) = 0 \<or>
                  (master = - (2 ^ 31) \<and> index_map_bs (mpc_function_space mpc) = - 1)))
        (links (masters mpc) (nat slave)))"

definition cell_ok :: "multi_point_constraint \<Rightarrow> multi_point_constraint \<Rightarrow> nat \<Rightarrow> bool" where
  "cell_ok mpc mpc_off_axis i =
     (links (cell_to_slaves mpc) i = [] \<or>
      (i < length (cell_dofs (mpc_function_space mpc_off_axis)) \<and>
       list_all (slave_ok mpc) (links (cell_to_slaves mpc) i)))"

definition populator_ok :: "multi_point_constraint \<Rightarrow> multi_point_constraint \<Rightarrow> bool" where
  "populator_ok mpc mpc_off_axis =
     list_all (cell_ok mpc mpc_off_axis) [0..<num_nodes (cell_to_slaves mpc)]"

text \<open>
  The pairs the master inserter of the square path is called with: for the flattened
  masters of a cell, every pair of positions \<open>j < k\<close>, in both orders.
\<close>

definition cross_pairs :: "int list \<Rightarrow> (int \<times> int) list" where
  "cross_pairs fm =
     concat (map (\<lambda>j. concat (map (\<lambda>k. [(fm ! k, fm ! j), (fm ! j, fm ! k)])
                                  [Suc j..<length fm]))
               [0..<length fm])"

definition master_cross_pairs :: "multi_point_constraint \<Rightarrow> (int \<times> int) list" where
  "master_cross_pairs mpc =
     concat (map (\<lambda>i. if links (cell_to_slaves mpc) i = [] then []
                       else cross_pairs (flattened_masters mpc i))
               [0..<num_nodes (cell_to_slaves mpc)])"

text \<open>
  The scenario of section 8: a single cell with the dof blocks 0, 1, 2, of which 0 and
  1 are slaves; slave 0 has the one master dof 6 and slave 1 the one master dof 8; the
  block size is 2, so the master blocks are 3 and 4.
\<close>

definition one_cell_mpc :: multi_point_constraint where
  "one_cell_mpc =
     \<lparr>mpc_function_space = \<lparr>cell_dofs = [[0, 1, 2]], index_map_bs = 2\<rparr>,
      cell_to_slaves = \<lparr>array = [0, 1], offsets = [0, 2]\<rparr>,
      masters = \<lparr>array = [6, 8], offsets = [0, 1, 2, 2]\<rparr>\<rparr>"

definition one_cell_store :: mpc_store where
  "one_cell_store = (\<lambda>ptr. if ptr = 0 then Some one_cell_mpc else None)"

definition bilinear_form :: form where
  "bilinear_form = \<lparr>form_rank = 2\<rparr>"

definition linear_form :: form where
  "linear_form = \<lparr>form_rank = 1\<rparr>"

text \<open>A stand-in for the standard pattern of the single cell: all pairs of its dof blocks.\<close>

definition one_cell_standard_pattern :: "form \<Rightarrow> sparsity_pattern \<Rightarrow> sparsity_pattern" where
  "one_cell_standard_pattern a pattern = pattern_insert pattern [0, 1, 2] [0, 1, 2]"

text \<open>
  For the proofs: an inserter adds, to whatever pattern it is given, a set of entries
  that depends on its two block lists only; the entries of the loops over \<open>j\<close> and \<open>k\<close>
  for such inserters; and the entries of one cell.
\<close>

definition adds :: "inserter \<Rightarrow> (int list \<Rightarrow> int list \<Rightarrow> (int \<times> int) set) \<Rightarrow> bool" where
  "adds ins E = (\<forall>p rows cols. set (ins p rows cols) = set p \<union> E rows cols)"

definition master_entries :: "(int list \<Rightarrow> int list \<Rightarrow> (int \<times> int) set) \<Rightarrow> (int list \<Rightarrow> int list \<Rightarrow> (int \<times> int) set) \<Rightarrow> int list \<Rightarrow> int list \<Rightarrow> (int \<times> int) set" where
  "master_entries P M cd fm =
     (\<Union>j\<in>{0..<length fm}. P [fm ! j] cd \<union> (\<Union>k\<in>{Suc j..<length fm}. M [fm ! k] [fm ! j]))"

definition cell_entries :: "(int list \<Rightarrow> int list \<Rightarrow> (int \<times> int) set) \<Rightarrow> (int list \<Rightarrow> int list \<Rightarrow> (int \<times> int) set) \<Rightarrow> multi_point_constraint \<Rightarrow> multi_point_constraint \<Rightarrow> nat \<Rightarrow> (int \<times> int) set" where
  "cell_entries P M mpc mpc_off_axis i =
     (if links (cell_to_slaves mpc) i = [] then {}
      else master_entries P M (cell_dofs (mpc_function_space mpc_off_axis) ! i)
             (flattened_masters mpc i))"

section \<open>Neighbourhood communicators (\<^verbatim>\<open>create_neighborhood_comms\<close>)\<close>

text \<open>
  Every rank calls the function with its own mesh tags, its own \<^verbatim>\<open>has_slave\<close> flag and
  the marker of the master entities. A run of the collective on \<open>mpi_size\<close> ranks is
  the list of these arguments, one per rank, in rank order.
\<close>

record rank_args =
  meshtag_values :: "int list"
  has_slave :: bool
  master_marker :: int

type_synonym uint8 = "8 word"

text \<open>\<^verbatim>\<open>std::vector<std::uint8_t> has_slaves(mpi_size, slave_val)\<close>\<close>

definition has_slaves :: "nat \<Rightarrow> rank_args \<Rightarrow> uint8 list" where
  "has_slaves mpi_size a = replicate mpi_size (if has_slave a then 1 else 0)"

text \<open>
  \<^verbatim>\<open>has_masters(mpi_size, 0)\<close>, filled with 1 when \<^verbatim>\<open>std::find\<close> meets the marker
  among the mesh tag values.
\<close>

definition has_masters :: "nat \<Rightarrow> rank_args \<Rightarrow> uint8 list" where
  "has_masters mpi_size a =
     (if master_marker a \<in> set (meshtag_values a)
      then replicate mpi_size 1 else replicate mpi_size 0)"

text \<open>
  \<^verbatim>\<open>MPI_Alltoall\<close> with one element per peer: the receive buffer of rank \<open>r\<close> holds at
  position \<open>i\<close> the element that rank \<open>i\<close> placed at position \<open>r\<close> of its send buffer.
\<close>

definition MPI_Alltoall :: "'a list list \<Rightarrow> nat \<Rightarrow> 'a list" where
  "MPI_Alltoall sendbufs r = map (\<lambda>i. (sendbufs ! i) ! r) [0..<length sendbufs]"

definition procs_with_masters :: "rank_args list \<Rightarrow> nat \<Rightarrow> uint8 list" where
  "procs_with_masters args r = MPI_Alltoall (map (has_masters (length args)) args) r"

definition procs_with_slaves :: "rank_args list \<Rightarrow> nat \<Rightarrow> uint8 list" where
  "procs_with_slaves args r = MPI_Alltoall (map (has_slaves (length args)) args) r"

text \<open>If the current rank owns masters, all other ranks with slaves are source edges.\<close>

definition source_edges :: "rank_args list \<Rightarrow> nat \<Rightarrow> nat list" where
  "source_edges args rank =
     (if procs_with_masters args rank ! rank = 1
      then filter (\<lambda>i. i \<noteq> rank \<and> procs_with_slaves args rank ! i = 1) [0..<length args]
      else [])"

text \<open>If the current rank owns a slave, all other ranks with masters are destinations.\<close>

definition dest_edges :: "rank_args list \<Rightarrow> nat \<Rightarrow> nat list" where
  "dest_edges args rank =
     (if procs_with_slaves args rank ! rank = 1
      then filter (\<lambda>i. i \<noteq> rank \<and> procs_with_masters args rank ! i = 1) [0..<length args]
      else [])"

text \<open>
  What one rank hands to \<^verbatim>\<open>MPI_Dist_graph_create_adjacent\<close>: the ranks it receives
  from, the ranks it sends to, and a weight for each. Ranks are positions in the list
  of ranks for the neighbourhood communicators and \<^verbatim>\<open>int32\<close> values read from the index
  map for the owner-to-ghost communicator.
\<close>

record 'rank dist_graph_args =
  sources :: "'rank list"
  source_weights :: "int list"
  destinations :: "'rank list"
  dest_weights :: "int list"

text \<open>
  The two communicators of one rank: \<open>comms[0]\<close> with edges slaves \<open>\<rightarrow>\<close> masters,
  \<open>comms[1]\<close> with the same two lists exchanged.
\<close>

definition create_neighborhood_comms :: "rank_args list \<Rightarrow> nat \<Rightarrow> nat dist_graph_args \<times> nat dist_graph_args" where
  "create_neighborhood_comms args rank =
     (let src = source_edges args rank; dst = dest_edges args rank in
      (\<lparr>sources = src, source_weights = replicate (length src) 1,
        destinations = dst, dest_weights = replicate (length dst) 1\<rparr>,
       \<lparr>sources = dst, source_weights = replicate (length dst) 1,
        destinations = src, dest_weights = replicate (length src) 1\<rparr>))"

text \<open>
  The directed edges of a distributed graph, collected over all ranks: rank \<open>r\<close>
  declares the edge \<open>s \<rightarrow> r\<close> for each of its sources and \<open>r \<rightarrow> d\<close> for each of its
  destinations.
\<close>

definition declared_edges :: "nat \<Rightarrow> nat dist_graph_args \<Rightarrow> (nat \<times> nat) list" where
  "declared_edges r g = map (\<lambda>s. (s, r)) (sources g) @ map (\<lambda>d. (r, d)) (destinations g)"

definition forward_topology :: "rank_args list \<Rightarrow> (nat \<times> nat) list" where
  "forward_topology args =
     concat (map (\<lambda>r. declared_edges r (fst (create_neighborhood_comms args r))) [0..<length args])"

definition reverse_topology :: "rank_args list \<Rightarrow> (nat \<times> nat) list" where
  "reverse_topology args =
     concat (map (\<lambda>r. declared_edges r (snd (create_neighborhood_comms args r))) [0..<length args])"

text \<open>The two ownership booleans of a rank, as the specification speaks of them.\<close>

definition owns_slave :: "rank_args list \<Rightarrow> nat \<Rightarrow> bool" where
  "owns_slave args i = has_slave (args ! i)"

definition owns_master :: "rank_args list \<Rightarrow> nat \<Rightarrow> bool" where
  "owns_master args i = (master_marker (args ! i) \<in> set (meshtag_values (args ! i)))"

text \<open>The scenario of four ranks: 0 and 1 own slaves, 2 and 3 own masters, 0 owns a master too.\<close>

definition four_ranks :: "rank_args list" where
  "four_ranks =
     [\<lparr>meshtag_values = [7, 3], has_slave = True, master_marker = 3\<rparr>,
      \<lparr>meshtag_values = [7], has_slave = True, master_marker = 3\<rparr>,
      \<lparr>meshtag_values = [3], has_slave = False, master_marker = 3\<rparr>,
      \<lparr>meshtag_values = [3, 3], has_slave = False, master_marker = 3\<rparr>]"

text \<open>
  The same scenario when the entity rank 0 holds is tagged with another value than the
  marker: the function then does not count rank 0 among the ranks with masters.
\<close>

definition four_ranks_other_tag :: "rank_args list" where
  "four_ranks_other_tag =
     [\<lparr>meshtag_values = [7, 5], has_slave = True, master_marker = 3\<rparr>,
      \<lparr>meshtag_values = [7], has_slave = True, master_marker = 3\<rparr>,
      \<lparr>meshtag_values = [3], has_slave = False, master_marker = 3\<rparr>,
      \<lparr>meshtag_values = [3, 3], has_slave = False, master_marker = 3\<rparr>]"

section \<open>The map from dof blocks to entities (\<^verbatim>\<open>create_block_to_facet_map\<close>)\<close>

text \<open>
  Modelled from the spec: the index map of section 4.1 (\<^verbatim>\<open>dolfinx::common::IndexMap\<close>,
  not part of this repository) with \<^verbatim>\<open>size_local()\<close>, the owners of the ghost blocks
  (one rank per ghost, so \<^verbatim>\<open>num_ghosts()\<close> is their number) and, for each owned block,
  the ranks that hold a ghost copy of it.
\<close>

record index_map =
  size_local :: nat
  owners :: "int list"
  index_to_dest_ranks :: adjacency_list

definition num_ghosts :: "index_map \<Rightarrow> nat" where
  "num_ghosts imap = length (owners imap)"

text \<open>
  What the function reads of the function space \<open>V\<close> for entities of dimension \<open>dim\<close>:
  the connectivities entity \<open>\<rightarrow>\<close> cell and cell \<open>\<rightarrow>\<close> entity of the mesh, the cell dofs
  of the dofmap, the closure dofs of each local entity in the element dof layout, and
  the index map of the dofmap.
\<close>

record block_space =
  e_to_c :: adjacency_list
  c_to_e :: adjacency_list
  dofmap_cell_dofs :: "int list list"
  entity_closure_dofs :: "int list list"
  dofmap_index_map :: index_map

definition num_dofs :: "block_space \<Rightarrow> nat" where
  "num_dofs V = size_local (dofmap_index_map V) + num_ghosts (dofmap_index_map V)"

text \<open>
  \<^verbatim>\<open>std::find\<close> followed by \<^verbatim>\<open>std::distance\<close>: the position of the first occurrence, the
  length when there is none.
\<close>

fun find_position :: "'a \<Rightarrow> 'a list \<Rightarrow> nat" where
  "find_position x [] = 0"
| "find_position x (y # ys) = (if y = x then 0 else Suc (find_position x ys))"

text \<open>
  The head of the body of the first loop: the incident cell of the entity, with the
  assertion that there is exactly one, and the local index of the entity in that cell,
  with the assertion that the cell has the entity.
\<close>

definition locate_entity :: "block_space \<Rightarrow> int \<Rightarrow> failure + int \<times> nat" where
  "locate_entity V entity =
     (case links_at (e_to_c V) entity of
        Inl e \<Rightarrow> Inl e
      | Inr cell \<Rightarrow>
          if length cell \<noteq> 1 then Inl Assert_one_incident_cell
          else
            case links_at (c_to_e V) (cell ! 0) of
              Inl e \<Rightarrow> Inl e
            | Inr cell_entities \<Rightarrow>
                if find_position entity cell_entities = length cell_entities
                then Inl Assert_entity_in_cell
                else Inr (cell ! 0, find_position entity cell_entities))"

text \<open>
  \<^verbatim>\<open>num_facets_per_dof[dof]++\<close> on a vector of \<^verbatim>\<open>int32\<close> counters: undefined outside the
  vector and when the counter is the largest \<^verbatim>\<open>int32\<close>.
\<close>

definition increment :: "nat list \<Rightarrow> int \<Rightarrow> failure + nat list" where
  "increment counts dof =
     (if \<not> in_range dof (length counts) then Inl Out_of_range
      else if int (counts ! nat dof) \<ge> 2 ^ 31 - 1 then Inl Signed_overflow
      else Inr (counts[nat dof := Suc (counts ! nat dof)]))"

definition count_block :: "int list \<Rightarrow> int \<Rightarrow> nat list \<Rightarrow> failure + nat list" where
  "count_block cell_blocks closure_block num_facets_per_dof =
     (case read_at cell_blocks closure_block of
        Inl e \<Rightarrow> Inl e
      | Inr dof \<Rightarrow> increment num_facets_per_dof dof)"

text \<open>
  The body of the first loop, for the position \<open>i\<close> of the entity list. The state is the
  three vectors \<^verbatim>\<open>num_facets_per_dof\<close>, \<^verbatim>\<open>local_indices\<close> and \<^verbatim>\<open>cells\<close>.
\<close>

type_synonym count_state = "nat list \<times> nat list \<times> int list"

definition count_entity :: "block_space \<Rightarrow> int list \<Rightarrow> nat \<Rightarrow> count_state \<Rightarrow> failure + count_state" where
  "count_entity V entities i st =
     (case st of (num_facets_per_dof, local_indices, cells) \<Rightarrow>
        case locate_entity V (entities ! i) of
          Inl e \<Rightarrow> Inl e
        | Inr (cell, local_entity) \<Rightarrow>
            (case read_at (dofmap_cell_dofs V) cell of
               Inl e \<Rightarrow> Inl e
             | Inr cell_blocks \<Rightarrow>
                 (case read_at (entity_closure_dofs V) (int local_entity) of
                    Inl e \<Rightarrow> Inl e
                  | Inr closure_blocks \<Rightarrow>
                      (case for_each (count_block cell_blocks) closure_blocks num_facets_per_dof of
                         Inl e \<Rightarrow> Inl e
                       | Inr counts \<Rightarrow>
                           Inr (counts, local_indices[i := local_entity], cells[i := cell])))))"

definition first_pass :: "block_space \<Rightarrow> int list \<Rightarrow> failure + count_state" where
  "first_pass V entities =
     for_each (count_entity V entities) [0..<length entities]
       (replicate (num_dofs V) 0, replicate (length entities) 0, replicate (length entities) 0)"

text \<open>
  \<^verbatim>\<open>std::partial_sum\<close> into \<^verbatim>\<open>offsets.begin() + 1\<close> after \<^verbatim>\<open>offsets[0] = 0\<close>. The sums are
  \<^verbatim>\<open>int32\<close>: a total beyond the largest \<^verbatim>\<open>int32\<close> is undefined.
\<close>

fun partial_sum :: "nat \<Rightarrow> nat list \<Rightarrow> nat list" where
  "partial_sum acc [] = []"
| "partial_sum acc (x # xs) = (acc + x) # partial_sum (acc + x) xs"

definition compute_offsets :: "nat list \<Rightarrow> failure + nat list" where
  "compute_offsets num_facets_per_dof =
     (let offs = 0 # partial_sum 0 num_facets_per_dof in
      if int (last offs) \<ge> 2 ^ 31 then Inl Signed_overflow else Inr offs)"

text \<open>
  The second loop. \<^verbatim>\<open>data[offsets[dof] + num_facets_per_dof[dof]++] = entities[i]\<close>: the state
  is the write cursors (the reused counters) and the data.
\<close>

type_synonym fill_state = "nat list \<times> int list"

definition write_entity :: "nat list \<Rightarrow> int \<Rightarrow> int \<Rightarrow> fill_state \<Rightarrow> failure + fill_state" where
  "write_entity offs entity dof st =
     (case st of (num_facets_per_dof, data) \<Rightarrow>
        if \<not> (in_range dof (length offs) \<and> in_range dof (length num_facets_per_dof))
        then Inl Out_of_range
        else if offs ! nat dof + num_facets_per_dof ! nat dof \<ge> length data
        then Inl Out_of_range
        else Inr (num_facets_per_dof[nat dof := Suc (num_facets_per_dof ! nat dof)],
                  data[offs ! nat dof + num_facets_per_dof ! nat dof := entity]))"

definition fill_block :: "nat list \<Rightarrow> int \<Rightarrow> int list \<Rightarrow> int \<Rightarrow> fill_state \<Rightarrow> failure + fill_state" where
  "fill_block offs entity cell_blocks closure_block st =
     (case read_at cell_blocks closure_block of
        Inl e \<Rightarrow> Inl e
      | Inr dof \<Rightarrow> write_entity offs entity dof st)"

definition fill_entity :: "block_space \<Rightarrow> int list \<Rightarrow> nat list \<Rightarrow> nat list \<Rightarrow> int list \<Rightarrow> nat \<Rightarrow> fill_state \<Rightarrow> failure + fill_state" where
  "fill_entity V entities offs local_indices cells i st =
     (case read_at (dofmap_cell_dofs V) (cells ! i) of
        Inl e \<Rightarrow> Inl e
      | Inr cell_blocks \<Rightarrow>
          (case read_at (entity_closure_dofs V) (int (local_indices ! i)) of
             Inl e \<Rightarrow> Inl e
           | Inr closure_blocks \<Rightarrow>
               for_each (fill_block offs (entities ! i) cell_blocks) closure_blocks st))"

definition create_block_to_facet_map :: "block_space \<Rightarrow> int list \<Rightarrow> failure + adjacency_list" where
  "create_block_to_facet_map V entities =
     (case first_pass V entities of
        Inl e \<Rightarrow> Inl e
      | Inr (num_facets_per_dof, local_indices, cells) \<Rightarrow>
          (case compute_offsets num_facets_per_dof of
             Inl e \<Rightarrow> Inl e
           | Inr offs \<Rightarrow>
               (case for_each (fill_entity V entities offs local_indices cells)
                       [0..<length entities]
                       (replicate (length num_facets_per_dof) 0, replicate (last offs) 0) of
                  Inl e \<Rightarrow> Inl e
                | Inr (cursors, data) \<Rightarrow> Inr \<lparr>array = data, offsets = offs\<rparr>)))"

text \<open>
  The entity-to-block incidences by direct enumeration: for an entity with the single
  incident cell \<open>c\<close> and the local index \<open>l\<close> in it, the blocks of \<open>c\<close> at the closure
  dofs of \<open>l\<close>; and, over the entity list, every (block, entity) pair in the order the
  loops meet them.
\<close>

definition cell_of :: "block_space \<Rightarrow> int \<Rightarrow> int" where
  "cell_of V entity = links (e_to_c V) (nat entity) ! 0"

definition local_index_of :: "block_space \<Rightarrow> int \<Rightarrow> nat" where
  "local_index_of V entity =
     find_position entity (links (c_to_e V) (nat (cell_of V entity)))"

definition closure_blocks_of :: "block_space \<Rightarrow> int \<Rightarrow> int list" where
  "closure_blocks_of V entity = entity_closure_dofs V ! local_index_of V entity"

definition blocks_of :: "block_space \<Rightarrow> int \<Rightarrow> int list" where
  "blocks_of V entity =
     map (\<lambda>closure_block. dofmap_cell_dofs V ! nat (cell_of V entity) ! nat closure_block)
       (closure_blocks_of V entity)"

definition incidences :: "block_space \<Rightarrow> int list \<Rightarrow> (int \<times> int) list" where
  "incidences V entities =
     concat (map (\<lambda>entity. map (\<lambda>block. (block, entity)) (blocks_of V entity)) entities)"

text \<open>
  The precondition of the function: every entity of the list is an entity of the mesh
  and has exactly one incident cell.
\<close>

definition one_incident_cell :: "block_space \<Rightarrow> int list \<Rightarrow> bool" where
  "one_incident_cell V entities =
     list_all (\<lambda>entity. in_range entity (num_nodes (e_to_c V)) \<and>
                         length (links (e_to_c V) (nat entity)) = 1) entities"

text \<open>
  The consistency of the mesh and the dofmap that keeps every read inside its
  container: the incident cell is a cell of both connectivities and of the dofmap and
  has the entity among its entities, the local index has closure dofs, the closure dofs
  are positions of the cell dofs, the blocks are blocks of the index map, and the
  number of incidences fits an \<^verbatim>\<open>int32\<close>.
\<close>

definition entity_reads_ok :: "block_space \<Rightarrow> int \<Rightarrow> bool" where
  "entity_reads_ok V entity =
     (in_range (cell_of V entity) (num_nodes (c_to_e V)) \<and>
      entity \<in> set (links (c_to_e V) (nat (cell_of V entity))) \<and>
      in_range (cell_of V entity) (length (dofmap_cell_dofs V)) \<and>
      local_index_of V entity < length (entity_closure_dofs V) \<and>
      list_all (\<lambda>closure_block.
          in_range closure_block (length (dofmap_cell_dofs V ! nat (cell_of V entity))))
        (closure_blocks_of V entity) \<and>
      list_all (\<lambda>block. in_range block (num_dofs V)) (blocks_of V entity))"

definition reads_ok :: "block_space \<Rightarrow> int list \<Rightarrow> bool" where
  "reads_ok V entities =
     (list_all (entity_reads_ok V) entities \<and> int (length (incidences V entities)) < 2 ^ 31)"

text \<open>
  A mesh of two triangles, cells 0 and 1, that share the facet 2; the facets 0, 1 of
  cell 0 and 3, 4 of cell 1 are on the boundary. Each cell has three dof blocks, one
  per vertex, and the closure of a facet holds the two blocks of its end points.
\<close>

definition two_triangles :: block_space where
  "two_triangles =
     \<lparr>e_to_c = \<lparr>array = [0, 0, 0, 1, 1, 1], offsets = [0, 1, 2, 4, 5, 6]\<rparr>,
      c_to_e = \<lparr>array = [0, 1, 2, 2, 3, 4], offsets = [0, 3, 6]\<rparr>,
      dofmap_cell_dofs = [[0, 1, 2], [1, 2, 3]],
      entity_closure_dofs = [[1, 2], [0, 2], [0, 1]],
      dofmap_index_map =
        \<lparr>size_local = 3, owners = [1],
         index_to_dest_ranks = \<lparr>array = [1, 1, 2], offsets = [0, 0, 1, 3]\<rparr>\<rparr>\<rparr>"

text \<open>
  For the proofs: the counter update without its checks, the number of occurrences of
  each block in a list of blocks, and the entities that a list of (block, entity)
  pairs holds for one block, in order.
\<close>

definition bump :: "int \<Rightarrow> nat list \<Rightarrow> nat list" where
  "bump dof counts = counts[nat dof := Suc (counts ! nat dof)]"

definition block_counts :: "nat \<Rightarrow> int list \<Rightarrow> nat list" where
  "block_counts n dofs = map (\<lambda>b. count_list dofs (int b)) [0..<n]"

definition block_row :: "(int \<times> int) list \<Rightarrow> nat \<Rightarrow> int list" where
  "block_row ps b = map snd (filter (\<lambda>p. fst p = int b) ps)"

section \<open>The owner-to-ghost communicator (\<^verbatim>\<open>create_owner_to_ghost_comm\<close>)\<close>

text \<open>
  \<^verbatim>\<open>std::set<std::int32_t>\<close>: the elements in increasing order without repetition;
  \<^verbatim>\<open>insert\<close> puts a new element at its place and leaves the set as it is when the
  element is there already.
\<close>

type_synonym int32_set = "int list"

definition set_insert :: "int \<Rightarrow> int32_set \<Rightarrow> int32_set" where
  "set_insert x s = (if x \<in> set s then s else insort x s)"

text \<open>The body of the loop over \<^verbatim>\<open>local_blocks\<close>, with its inner loop over the links.\<close>

definition insert_dest_ranks :: "adjacency_list \<Rightarrow> int \<Rightarrow> int32_set \<Rightarrow> failure + int32_set" where
  "insert_dest_ranks shared_indices block dst_edges =
     (case links_at shared_indices block of
        Inl e \<Rightarrow> Inl e
      | Inr procs \<Rightarrow> Inr (fold set_insert procs dst_edges))"

text \<open>The body of the loop over \<^verbatim>\<open>ghost_blocks\<close>.\<close>

definition insert_owner :: "int list \<Rightarrow> nat \<Rightarrow> int \<Rightarrow> int32_set \<Rightarrow> failure + int32_set" where
  "insert_owner ghost_owners size_local' block src_edges =
     (case read_at ghost_owners (block - int size_local') of
        Inl e \<Rightarrow> Inl e
      | Inr owner \<Rightarrow> Inr (set_insert owner src_edges))"

text \<open>
  The function returns the communicator that \<^verbatim>\<open>MPI_Dist_graph_create_adjacent\<close> makes
  from the two edge lists; the model returns what is handed to it. The communicator
  of the index map that the call builds on, and the rank in it, which the function
  reads and does not use, are left out.
\<close>

definition create_owner_to_ghost_comm :: "int list \<Rightarrow> int list \<Rightarrow> index_map \<Rightarrow> failure + int dist_graph_args" where
  "create_owner_to_ghost_comm local_blocks ghost_blocks imap =
     (case for_each (insert_dest_ranks (index_to_dest_ranks imap)) local_blocks [] of
        Inl e \<Rightarrow> Inl e
      | Inr dst_edges \<Rightarrow>
          (case for_each (insert_owner (owners imap) (size_local imap)) ghost_blocks [] of
             Inl e \<Rightarrow> Inl e
           | Inr src_edges \<Rightarrow>
               Inr \<lparr>sources = src_edges, source_weights = replicate (length src_edges) 1,
                    destinations = dst_edges, dest_weights = replicate (length dst_edges) 1\<rparr>))"

text \<open>
  The owning rank of a ghost block and the ranks that hold a ghost copy of an owned
  block, as the index map gives them; and the inputs whose blocks the index map knows.
\<close>

definition owner_of :: "index_map \<Rightarrow> int \<Rightarrow> int" where
  "owner_of imap block = owners imap ! nat (block - int (size_local imap))"

definition dest_ranks :: "index_map \<Rightarrow> int \<Rightarrow> int list" where
  "dest_ranks imap block = links (index_to_dest_ranks imap) (nat block)"

definition blocks_known :: "int list \<Rightarrow> int list \<Rightarrow> index_map \<Rightarrow> bool" where
  "blocks_known local_blocks ghost_blocks imap =
     (list_all (\<lambda>block. in_range block (num_nodes (index_to_dest_ranks imap))) local_blocks \<and>
      list_all (\<lambda>block. in_range (block - int (size_local imap)) (length (owners imap)))
        ghost_blocks)"

text \<open>
  An index map with four owned blocks and three ghosts: block 1 is ghosted on rank 2,
  block 2 on ranks 3 and 2, block 3 on rank 3; the ghosts 4, 5, 6 belong to the ranks
  3, 0 and 3.
\<close>

definition small_index_map :: index_map where
  "small_index_map =
     \<lparr>size_local = 4, owners = [3, 0, 3],
      index_to_dest_ranks = \<lparr>array = [2, 3, 2, 3], offsets = [0, 0, 1, 3, 4]\<rparr>\<rparr>"

section \<open>Basis functions at a point (\<^verbatim>\<open>get_basis_functions\<close>)\<close>

text \<open>
  What the function reads before it looks at the cell index: the mesh of the function
  space with the dimension of its geometry, and the element with its block size and
  the shape that \<^verbatim>\<open>tabulate_shape(0, 1)\<close> gives. The three \<^verbatim>\<open>shared_ptr\<close> may hold nothing.
  Values of \<^verbatim>\<open>double\<close> are real numbers; the part of the function modelled in full
  only stores them.
\<close>

record basis_mesh =
  geometry_dim :: nat

record finite_element =
  block_size :: nat
  tabulate_shape :: "nat \<times> nat \<times> nat \<times> nat"

record basis_space =
  space_mesh :: "basis_mesh option"
  space_element :: "finite_element option"

text \<open>\<^verbatim>\<open>xt::zeros<double>({rows, columns})\<close>, a tensor of rank 2 as the list of its rows.\<close>

definition zeros :: "nat \<Rightarrow> nat \<Rightarrow> real list list" where
  "zeros rows columns = replicate rows (replicate columns 0)"

definition set_entry :: "real list list \<Rightarrow> nat \<Rightarrow> nat \<Rightarrow> real \<Rightarrow> real list list" where
  "set_entry a i j v = a[i := (a ! i)[j := v]]"

text \<open>
  The last loops of the function, which expand the basis values for each dof of a
  block: \<^verbatim>\<open>basis_array(i * bs + block, j * bs + block) = basis_values(i, j)\<close>.
\<close>

definition expand_basis :: "nat \<Rightarrow> nat \<Rightarrow> nat \<Rightarrow> (nat \<Rightarrow> nat \<Rightarrow> real) \<Rightarrow> real list list \<Rightarrow> real list list" where
  "expand_basis element_bs shape2 shape3 basis_values basis_array =
     fold (\<lambda>block a.
        fold (\<lambda>i a'.
           fold (\<lambda>j a''. set_entry a'' (i * element_bs + block) (j * element_bs + block)
                            (basis_values i j))
             [0..<shape3] a')
          [0..<shape2] a)
       [0..<element_bs] basis_array"

text \<open>
  Between the test of the index and the last loops the function gathers the coordinate
  dofs of the cell, pulls the point back to the reference cell, tabulates the basis
  there, applies the dof transformation and pushes the values forward, all with the
  mesh and element libraries. This part is the parameter \<open>push_forward\<close> of the model:
  from the space, the point and the index of the cell to the basis values, or to a
  failure.
\<close>

definition get_basis_functions :: "(basis_space \<Rightarrow> real list \<Rightarrow> int \<Rightarrow> failure + (nat \<Rightarrow> nat \<Rightarrow> real)) \<Rightarrow> basis_space option \<Rightarrow> real list \<Rightarrow> int \<Rightarrow> failure + real list list" where
  "get_basis_functions push_forward V x index =
     (case V of
        None \<Rightarrow> Inl Assert_precondition
      | Some space \<Rightarrow>
          (case space_mesh space of
             None \<Rightarrow> Inl Assert_precondition
           | Some mesh \<Rightarrow>
               if length x \<noteq> geometry_dim mesh then Inl Assert_precondition
               else
                 (case space_element space of
                    None \<Rightarrow> Inl Assert_precondition
                  | Some element \<Rightarrow>
                      (case tabulate_shape element of
                         (shape0, shape1, shape2, shape3) \<Rightarrow>
                           (let element_bs = block_size element;
                                basis_array = zeros (shape2 * element_bs) (shape3 * element_bs)
                            in if index < 0 then Inr basis_array
                               else
                                 case push_forward space x index of
                                   Inl e \<Rightarrow> Inl e
                                 | Inr basis_values \<Rightarrow>
                                     Inr (expand_basis element_bs shape2 shape3 basis_values
                                            basis_array))))))"

text \<open>A space on a mesh in the plane with three basis functions and blocks of two.\<close>

definition plane_space :: basis_space where
  "plane_space =
     \<lparr>space_mesh = Some \<lparr>geometry_dim = 2\<rparr>,
      space_element = Some \<lparr>block_size = 2, tabulate_shape = (1, 1, 3, 1)\<rparr>\<rparr>"

text \<open>A push-forward that fails for every cell, and one that gives the value 1 everywhere.\<close>

definition failing_push_forward :: "basis_space \<Rightarrow> real list \<Rightarrow> int \<Rightarrow> failure + (nat \<Rightarrow> nat \<Rightarrow> real)" where
  "failing_push_forward space x index = Inl Out_of_range"

definition unit_push_forward :: "basis_space \<Rightarrow> real list \<Rightarrow> int \<Rightarrow> failure + (nat \<Rightarrow> nat \<Rightarrow> real)" where
  "unit_push_forward space x index = Inr (\<lambda>i j. 1)"

section \<open>Colliding cells (\<^verbatim>\<open>compute_colliding_cells\<close>, \<^verbatim>\<open>find_local_collisions\<close>)\<close>

text \<open>
  The points are a tensor of rank 2: its two extents and its values, row after row.
  \<^verbatim>\<open>xt::row(points, i)\<close> is defined for a row of the tensor.
\<close>

record point_array =
  shape_0 :: nat
  shape_1 :: nat
  storage :: "real list"

definition point_row :: "point_array \<Rightarrow> nat \<Rightarrow> failure + real list" where
  "point_row points i =
     (if i < shape_0 points
      then Inr (take (shape_1 points) (drop (i * shape_1 points) (storage points)))
      else Inl Out_of_range)"

text \<open>
  \<^verbatim>\<open>std::min_element\<close>: the position of the first least element; an element replaces
  the least so far only when it is less. For no elements the position is 0, the end.
\<close>

definition min_element :: "real list \<Rightarrow> nat" where
  "min_element xs =
     fold (\<lambda>i smallest. if xs ! i < xs ! smallest then i else smallest) [1..<length xs] 0"

text \<open>
  The squared distances come from the geometry library
  (\<^verbatim>\<open>dolfinx::geometry::squared_distance\<close>, not part of this repository), which gives one
  distance for each pair of an entity and a row of points. It is the parameter
  \<open>sq_dist\<close> of the model: the squared distance between a cell and a point.
  \<^verbatim>\<open>_point\<close> holds the point \<open>i\<close> once for each cell; its rows have three values, and
  what the tensor library does when a row of another length is assigned to them is
  outside this repository: the model fails there.
\<close>

type_synonym collide_state = "nat list \<times> int list"

definition collide_step :: "(int \<Rightarrow> real list \<Rightarrow> real) \<Rightarrow> adjacency_list \<Rightarrow> point_array \<Rightarrow> real \<Rightarrow> nat \<Rightarrow> collide_state \<Rightarrow> failure + collide_state" where
  "collide_step sq_dist candidate_cells points eps2 i st =
     (case st of (offs, colliding_cells) \<Rightarrow>
        let cells = links candidate_cells i in
        if cells = [] then Inr (offs @ [length colliding_cells], colliding_cells)
        else
          case point_row points i of
            Inl e \<Rightarrow> Inl e
          | Inr p \<Rightarrow>
              if shape_1 points \<noteq> 3 then Inl Shape_mismatch
              else
                (let point = replicate (length cells) p;
                     distances_sq = map2 sq_dist cells point;
                     cell_idx = min_element distances_sq;
                     colliding_cells' =
                       (if distances_sq ! cell_idx < eps2
                        then colliding_cells @ [cells ! cell_idx] else colliding_cells)
                 in Inr (offs @ [length colliding_cells'], colliding_cells')))"

definition compute_colliding_cells :: "(int \<Rightarrow> real list \<Rightarrow> real) \<Rightarrow> adjacency_list \<Rightarrow> point_array \<Rightarrow> real \<Rightarrow> failure + adjacency_list" where
  "compute_colliding_cells sq_dist candidate_cells points eps2 =
     (case for_each (collide_step sq_dist candidate_cells points eps2)
             [0..<num_nodes candidate_cells] ([0], []) of
        Inl e \<Rightarrow> Inl e
      | Inr (offs, colliding_cells) \<Rightarrow> Inr \<lparr>array = colliding_cells, offsets = offs\<rparr>)"

text \<open>
  \<^verbatim>\<open>find_local_collisions\<close>. The collisions of the points with the bounding box tree
  come from the geometry library (\<^verbatim>\<open>dolfinx::geometry::compute_collisions\<close>): the
  parameter \<open>compute_collisions\<close>, from the points to the candidate cells of each.
\<close>

definition first_collision :: "adjacency_list \<Rightarrow> nat \<Rightarrow> int list \<Rightarrow> failure + int list" where
  "first_collision cell_collisions i collisions =
     (let local_cells = links cell_collisions i in
      if local_cells = [] then Inr collisions
      else if i < length collisions then Inr (collisions[i := local_cells ! 0])
      else Inl Out_of_range)"

definition find_local_collisions :: "(int \<Rightarrow> real list \<Rightarrow> real) \<Rightarrow> (point_array \<Rightarrow> adjacency_list) \<Rightarrow> point_array \<Rightarrow> real \<Rightarrow> failure + int list" where
  "find_local_collisions sq_dist compute_collisions points eps2 =
     (if shape_1 points \<noteq> 3 then Inl Assert_precondition
      else
        case compute_colliding_cells sq_dist (compute_collisions points) points eps2 of
          Inl e \<Rightarrow> Inl e
        | Inr cell_collisions \<Rightarrow>
            for_each (first_collision cell_collisions) [0..<num_nodes cell_collisions]
              (replicate (shape_0 points) (- 1)))"

text \<open>
  The squared distances of the candidate cells of point \<open>i\<close>, in the order of the
  cells.
\<close>

definition candidate_distances :: "(int \<Rightarrow> real list \<Rightarrow> real) \<Rightarrow> adjacency_list \<Rightarrow> point_array \<Rightarrow> nat \<Rightarrow> real list" where
  "candidate_distances sq_dist candidate_cells points i =
     map (\<lambda>cell. sq_dist cell (take (shape_1 points) (drop (i * shape_1 points) (storage points))))
       (links candidate_cells i)"

text \<open>
  Three points on a line of cells: cell \<open>c\<close> is the segment from \<open>c\<close> to \<open>c + 1\<close> on the
  first axis, and the squared distance of a point to it is the square of how far the
  first coordinate lies outside the segment. Point 0 has no candidate, point 1 lies in
  cell 1 (its candidates are 0, 1 and 2), and point 2 lies away from its candidates.
\<close>

definition segment_sq_dist :: "int \<Rightarrow> real list \<Rightarrow> real" where
  "segment_sq_dist cell p =
     (let x = p ! 0; lo = real_of_int cell; hi = real_of_int cell + 1
      in if x < lo then (lo - x) * (lo - x) else if hi < x then (x - hi) * (x - hi) else 0)"

definition three_points :: point_array where
  "three_points = \<lparr>shape_0 = 3, shape_1 = 3, storage = [9, 0, 0, 3 / 2, 0, 0, 5, 0, 0]\<rparr>"

definition three_candidates :: "point_array \<Rightarrow> adjacency_list" where
  "three_candidates points = \<lparr>array = [0, 1, 2, 0, 1], offsets = [0, 0, 3, 5]\<rparr>"

text \<open>
  For the proofs: the row of the result for point \<open>i\<close>, and the offsets of an adjacency
  list made of given rows.
\<close>

definition colliding_row :: "(int \<Rightarrow> real list \<Rightarrow> real) \<Rightarrow> adjacency_list \<Rightarrow> point_array \<Rightarrow> real \<Rightarrow> nat \<Rightarrow> int list" where
  "colliding_row sq_dist candidate_cells points eps2 i =
     (let cells = links candidate_cells i;
          ds = candidate_distances sq_dist candidate_cells points i
      in if cells = [] then []
         else if ds ! min_element ds < eps2 then [cells ! min_element ds] else [])"

definition csr_offsets :: "'a list list \<Rightarrow> nat list" where
  "csr_offsets rows = map (\<lambda>j. length (concat (take j rows))) [0..<Suc (length rows)]"

section \<open>Properties of the neighbourhood communicators\<close>

lemma MPI_Alltoall_nth:
  "r < length sendbufs \<Longrightarrow> i < length sendbufs \<Longrightarrow>
   MPI_Alltoall sendbufs r ! i = (sendbufs ! i) ! r"
  by (simp add: MPI_Alltoall_def)

lemma procs_with_masters_nth:
  "r < length args \<Longrightarrow> i < length args \<Longrightarrow>
   procs_with_masters args r ! i = (if owns_master args i then 1 else 0)"
  by (simp add: procs_with_masters_def MPI_Alltoall_nth has_masters_def owns_master_def)

lemma procs_with_slaves_nth:
  "r < length args \<Longrightarrow> i < length args \<Longrightarrow>
   procs_with_slaves args r ! i = (if owns_slave args i then 1 else 0)"
  by (simp add: procs_with_slaves_def MPI_Alltoall_nth has_slaves_def owns_slave_def)

lemma mem_source_edges:
  "r < length args \<Longrightarrow>
   i \<in> set (source_edges args r) \<longleftrightarrow>
     i < length args \<and> i \<noteq> r \<and> owns_slave args i \<and> owns_master args r"
  by (auto simp: source_edges_def procs_with_masters_nth procs_with_slaves_nth
      split: if_splits)

lemma mem_dest_edges:
  "r < length args \<Longrightarrow>
   i \<in> set (dest_edges args r) \<longleftrightarrow>
     i < length args \<and> i \<noteq> r \<and> owns_master args i \<and> owns_slave args r"
  by (auto simp: dest_edges_def procs_with_masters_nth procs_with_slaves_nth
      split: if_splits)

lemma mem_declared_edges:
  "(i, j) \<in> set (declared_edges r g) \<longleftrightarrow>
     (j = r \<and> i \<in> set (sources g)) \<or> (i = r \<and> j \<in> set (destinations g))"
  by (auto simp: declared_edges_def)

lemma mem_forward_topology:
  "(i, j) \<in> set (forward_topology args) \<longleftrightarrow>
     i < length args \<and> j < length args \<and> i \<noteq> j \<and> owns_slave args i \<and> owns_master args j"
  unfolding forward_topology_def set_concat set_map
  by (auto simp: mem_declared_edges create_neighborhood_comms_def Let_def
      mem_source_edges mem_dest_edges)

lemma mem_reverse_topology:
  "(j, i) \<in> set (reverse_topology args) \<longleftrightarrow>
     i < length args \<and> j < length args \<and> i \<noteq> j \<and> owns_slave args i \<and> owns_master args j"
  unfolding reverse_topology_def set_concat set_map
  by (auto simp: mem_declared_edges create_neighborhood_comms_def Let_def
      mem_source_edges mem_dest_edges)

lemma forward_topology_four_ranks:
  "forward_topology four_ranks =
     [(1, 0), (0, 2), (0, 3), (1, 0), (1, 2), (1, 3), (0, 2), (1, 2), (0, 3), (1, 3)]"
  by code_simp

lemma reverse_topology_four_ranks:
  "reverse_topology four_ranks =
     [(2, 0), (3, 0), (0, 1), (0, 1), (2, 1), (3, 1), (2, 0), (2, 1), (3, 0), (3, 1)]"
  by code_simp

lemma forward_topology_four_ranks_other_tag:
  "set (forward_topology four_ranks_other_tag) = {(0, 2), (0, 3), (1, 2), (1, 3)}"
proof -
  have "forward_topology four_ranks_other_tag =
      [(0, 2), (0, 3), (1, 2), (1, 3), (0, 2), (1, 2), (0, 3), (1, 3)]"
    by code_simp
  then show ?thesis by auto
qed

text \<open>
  Claim C3. Whatever the ranks' mesh tags, markers and slave flags are, the forward
  (slaves to masters) topology holds the edge \<open>i \<rightarrow> j\<close> exactly when the reverse
  (masters to slaves) topology holds \<open>j \<rightarrow> i\<close>; that edge exists exactly when \<open>i\<close> and
  \<open>j\<close> are two different ranks, \<open>i\<close> owns a slave and \<open>j\<close> owns a master with the
  marker; and no rank \<open>r\<close> has an edge to itself in either topology, also when it
  owns both a slave and a master.
\<close>

theorem neighborhood_topologies_mirror:
  "((i, j) \<in> set (forward_topology args) \<longleftrightarrow> (j, i) \<in> set (reverse_topology args)) \<and>
   ((i, j) \<in> set (forward_topology args) \<longleftrightarrow>
      i < length args \<and> j < length args \<and> i \<noteq> j \<and> owns_slave args i \<and> owns_master args j) \<and>
   (r, r) \<notin> set (forward_topology args) \<and> (r, r) \<notin> set (reverse_topology args)"
  by (simp add: mem_forward_topology mem_reverse_topology)

theorem neighborhood_topologies_mirror_witness:
  "(0, 2) \<in> set (forward_topology four_ranks) \<and> (2, 0) \<in> set (reverse_topology four_ranks) \<and>
   owns_slave four_ranks 0 \<and> owns_master four_ranks 0 \<and>
   (0, 0) \<notin> set (forward_topology four_ranks) \<and> (0, 0) \<notin> set (reverse_topology four_ranks)"
proof -
  have fwd: "(0, 2) \<in> set (forward_topology four_ranks)"
    by (simp add: forward_topology_four_ranks)
  have own: "owns_slave four_ranks 0 \<and> owns_master four_ranks 0"
    by (simp add: owns_slave_def owns_master_def four_ranks_def)
  from neighborhood_topologies_mirror [of 0 2 four_ranks 0] fwd own
  show ?thesis by blast
qed

text \<open>
  Claim C4, as stated: on the four ranks of the scenario the forward edges would be
  exactly \<open>0 \<rightarrow> 2\<close>, \<open>0 \<rightarrow> 3\<close>, \<open>1 \<rightarrow> 2\<close> and \<open>1 \<rightarrow> 3\<close>. Rank 0 owns a master and rank 1
  owns a slave, so the function also creates \<open>1 \<rightarrow> 0\<close>: the stated set is not the
  edge set.
\<close>

theorem four_ranks_forward_edges_counterexample:
  "set (forward_topology four_ranks) \<noteq> {(0, 2), (0, 3), (1, 2), (1, 3)}"
proof
  assume "set (forward_topology four_ranks) = {(0, 2), (0, 3), (1, 2), (1, 3)}"
  moreover have "(1, 0) \<in> set (forward_topology four_ranks)"
    by (simp add: forward_topology_four_ranks)
  ultimately have "(1::nat, 0::nat) \<in> {(0, 2), (0, 3), (1, 2), (1, 3)}"
    by simp
  then show False by simp
qed

text \<open>
  Claim C4, amended: on the four ranks of the scenario the forward edge set is exactly
  \<open>1 \<rightarrow> 0\<close>, \<open>0 \<rightarrow> 2\<close>, \<open>0 \<rightarrow> 3\<close>, \<open>1 \<rightarrow> 2\<close>, \<open>1 \<rightarrow> 3\<close>, and there is no edge from rank 0
  to rank 0.
\<close>

theorem four_ranks_forward_edges:
  "set (forward_topology four_ranks) = {(1, 0), (0, 2), (0, 3), (1, 2), (1, 3)} \<and>
   (0, 0) \<notin> set (forward_topology four_ranks)"
  unfolding forward_topology_four_ranks by auto

section \<open>Properties of the sparsity pattern\<close>

lemma for_each_adds:
  assumes "\<And>x p. x \<in> set xs \<Longrightarrow> \<exists>p'. f x p = Inr p' \<and> set p' = set p \<union> E x"
  shows "\<exists>p'. for_each f xs p = Inr p' \<and> set p' = set p \<union> (\<Union>x\<in>set xs. E x)"
  using assms
proof (induction xs arbitrary: p)
  case Nil
  then show ?case by simp
next
  case (Cons x xs)
  from Cons.prems [of x p] obtain p1 where p1: "f x p = Inr p1" "set p1 = set p \<union> E x"
    by auto
  from Cons.IH [of p1] Cons.prems obtain p2
    where p2: "for_each f xs p1 = Inr p2" "set p2 = set p1 \<union> (\<Union>x\<in>set xs. E x)"
    by (metis list.set_intros(2))
  show ?case using p1 p2 by auto
qed

lemma fold_adds:
  assumes "\<And>x p. x \<in> set xs \<Longrightarrow> set (f x p) = set p \<union> E x"
  shows "set (fold f xs p) = set p \<union> (\<Union>x\<in>set xs. E x)"
  using assms by (induction xs arbitrary: p) auto

lemma push_master_blocks:
  assumes "list_all (\<lambda>master. \<not> (bs = 0 \<or> (master = - (2 ^ 31) \<and> bs = - 1))) ms"
  shows "for_each (push_master_block bs) ms fm = Inr (fm @ map (\<lambda>master. master sdiv bs) ms)"
  using assms
  by (induction ms arbitrary: fm) (auto simp: push_master_block_def std_div_def)

lemma flatten_slave_ok:
  assumes "slave_ok mpc slave"
  shows "flatten_slave mpc slave fm = Inr (fm @ master_blocks mpc slave)"
  using assms
  by (simp add: flatten_slave_def slave_ok_def links_at_def master_blocks_def push_master_blocks)

lemma flatten_slaves_ok:
  assumes "list_all (slave_ok mpc) slaves"
  shows "for_each (flatten_slave mpc) slaves fm = Inr (fm @ concat (map (master_blocks mpc) slaves))"
  using assms
  by (induction slaves arbitrary: fm) (auto simp: flatten_slave_ok)

lemma insert_masters_adds:
  assumes "adds pins P" and "adds mins M"
  shows "set (insert_masters pins mins cd fm p) = set p \<union> master_entries P M cd fm"
proof -
  have inner: "set (fold (\<lambda>k pat'. mins pat' [fm ! k] [fm ! j]) ks q)
      = set q \<union> (\<Union>k\<in>set ks. M [fm ! k] [fm ! j])" for j ks q
    using assms(2) by (intro fold_adds) (simp add: adds_def)
  have "set (insert_masters pins mins cd fm p) =
      set p \<union> (\<Union>j\<in>set [0..<length fm]. P [fm ! j] cd \<union> (\<Union>k\<in>set [Suc j..<length fm]. M [fm ! k] [fm ! j]))"
    unfolding insert_masters_def
    using assms(1) by (intro fold_adds) (simp add: inner adds_def Un_assoc)
  then show ?thesis by (simp add: master_entries_def)
qed

lemma populate_cell_adds:
  assumes "adds pins P" and "adds mins M" and "cell_ok mpc mpc_off_axis i"
  shows "\<exists>p'. populate_cell mpc mpc_off_axis pins mins i p = Inr p' \<and>
          set p' = set p \<union> cell_entries P M mpc mpc_off_axis i"
proof (cases "links (cell_to_slaves mpc) i = []")
  case True
  then show ?thesis by (simp add: populate_cell_def cell_entries_def)
next
  case False
  with assms(3) have i: "i < length (cell_dofs (mpc_function_space mpc_off_axis))"
    and ok: "list_all (slave_ok mpc) (links (cell_to_slaves mpc) i)"
    by (auto simp: cell_ok_def)
  from i have rd: "read_at (cell_dofs (mpc_function_space mpc_off_axis)) (int i)
      = Inr (cell_dofs (mpc_function_space mpc_off_axis) ! i)"
    by (simp add: read_at_def in_range_def)
  from ok have fl: "for_each (flatten_slave mpc) (links (cell_to_slaves mpc) i) []
      = Inr (flattened_masters mpc i)"
    by (simp add: flatten_slaves_ok flattened_masters_def)
  show ?thesis
    using False
    by (simp add: populate_cell_def rd fl cell_entries_def insert_masters_adds [OF assms(1,2)])
qed

lemma pattern_populator_adds:
  assumes "adds pins P" and "adds mins M" and "populator_ok mpc mpc_off_axis"
  shows "\<exists>p'. pattern_populator p mpc mpc_off_axis pins mins = Inr p' \<and>
          set p' = set p \<union> (\<Union>i\<in>{0..<num_nodes (cell_to_slaves mpc)}. cell_entries P M mpc mpc_off_axis i)"
proof -
  have "\<exists>p'. for_each (populate_cell mpc mpc_off_axis pins mins) [0..<num_nodes (cell_to_slaves mpc)] p = Inr p' \<and>
      set p' = set p \<union> (\<Union>i\<in>set [0..<num_nodes (cell_to_slaves mpc)]. cell_entries P M mpc mpc_off_axis i)"
  proof (rule for_each_adds)
    fix x q assume "x \<in> set [0..<num_nodes (cell_to_slaves mpc)]"
    with assms(3) have "cell_ok mpc mpc_off_axis x"
      by (simp add: populator_ok_def list_all_iff)
    then show "\<exists>p'. populate_cell mpc mpc_off_axis pins mins x q = Inr p' \<and>
        set p' = set q \<union> cell_entries P M mpc mpc_off_axis x"
      by (rule populate_cell_adds [OF assms(1,2)])
  qed
  then show ?thesis by (simp add: pattern_populator_def)
qed

lemma adds_square: "adds square_inserter (\<lambda>r c. set r \<times> set c \<union> set c \<times> set r)"
  by (auto simp: adds_def square_inserter_def pattern_insert_def)

lemma adds_row: "adds row_inserter (\<lambda>r c. set r \<times> set c)"
  by (auto simp: adds_def row_inserter_def pattern_insert_def)

lemma adds_column: "adds column_inserter (\<lambda>r c. set c \<times> set r)"
  by (auto simp: adds_def column_inserter_def pattern_insert_def)

lemma adds_nothing: "adds do_nothing_inserter (\<lambda>r c. {})"
  by (auto simp: adds_def do_nothing_inserter_def)

lemma set_cross_pairs:
  "set (cross_pairs fm) =
     (\<Union>j\<in>{0..<length fm}. \<Union>k\<in>{Suc j..<length fm}. {(fm ! k, fm ! j), (fm ! j, fm ! k)})"
  by (auto simp: cross_pairs_def)

lemma master_entries_square:
  "master_entries (\<lambda>r c. set r \<times> set c \<union> set c \<times> set r) (\<lambda>r c. set r \<times> set c \<union> set c \<times> set r) cd fm =
   master_entries (\<lambda>r c. set r \<times> set c) (\<lambda>r c. {}) cd fm \<union>
   master_entries (\<lambda>r c. set c \<times> set r) (\<lambda>r c. {}) cd fm \<union> set (cross_pairs fm)"
  unfolding master_entries_def set_cross_pairs by auto

lemma set_master_cross_pairs:
  "set (master_cross_pairs mpc) =
     (\<Union>i\<in>{0..<num_nodes (cell_to_slaves mpc)}.
        if links (cell_to_slaves mpc) i = [] then {} else set (cross_pairs (flattened_masters mpc i)))"
  by (auto simp: master_cross_pairs_def split: if_splits)

lemma cell_entries_square:
  "(\<Union>i\<in>{0..<n}. cell_entries (\<lambda>r c. set r \<times> set c \<union> set c \<times> set r) (\<lambda>r c. set r \<times> set c \<union> set c \<times> set r) mpc mpc i) =
   (\<Union>i\<in>{0..<n}. cell_entries (\<lambda>r c. set r \<times> set c) (\<lambda>r c. {}) mpc mpc i) \<union>
   (\<Union>i\<in>{0..<n}. cell_entries (\<lambda>r c. set c \<times> set r) (\<lambda>r c. {}) mpc mpc i) \<union>
   (\<Union>i\<in>{0..<n}. if links (cell_to_slaves mpc) i = [] then {} else set (cross_pairs (flattened_masters mpc i)))"
proof -
  have "cell_entries (\<lambda>r c. set r \<times> set c \<union> set c \<times> set r) (\<lambda>r c. set r \<times> set c \<union> set c \<times> set r) mpc mpc i =
     cell_entries (\<lambda>r c. set r \<times> set c) (\<lambda>r c. {}) mpc mpc i \<union>
     cell_entries (\<lambda>r c. set c \<times> set r) (\<lambda>r c. {}) mpc mpc i \<union>
     (if links (cell_to_slaves mpc) i = [] then {} else set (cross_pairs (flattened_masters mpc i)))" for i
    by (simp add: cell_entries_def master_entries_square)
  then show ?thesis by (simp add: UN_Un_distrib)
qed

lemma square_path_entries:
  assumes "populator_ok mpc mpc"
  shows "\<exists>p'. square_path p mpc mpc = Inr p' \<and>
     set p' = set p \<union> (\<Union>i\<in>{0..<num_nodes (cell_to_slaves mpc)}.
        cell_entries (\<lambda>r c. set r \<times> set c \<union> set c \<times> set r) (\<lambda>r c. set r \<times> set c \<union> set c \<times> set r) mpc mpc i)"
  unfolding square_path_def
  by (rule pattern_populator_adds [OF adds_square adds_square assms])

lemma rectangular_path_entries:
  assumes "populator_ok m0 m1" and "populator_ok m1 m0"
  shows "\<exists>p'. rectangular_path p m0 m1 = Inr p' \<and>
     set p' = set p \<union>
       (\<Union>i\<in>{0..<num_nodes (cell_to_slaves m0)}. cell_entries (\<lambda>r c. set r \<times> set c) (\<lambda>r c. {}) m0 m1 i) \<union>
       (\<Union>i\<in>{0..<num_nodes (cell_to_slaves m1)}. cell_entries (\<lambda>r c. set c \<times> set r) (\<lambda>r c. {}) m1 m0 i)"
proof -
  from pattern_populator_adds [OF adds_row adds_nothing assms(1), of p]
  obtain p1 where p1: "pattern_populator p m0 m1 row_inserter do_nothing_inserter = Inr p1"
    "set p1 = set p \<union> (\<Union>i\<in>{0..<num_nodes (cell_to_slaves m0)}. cell_entries (\<lambda>r c. set r \<times> set c) (\<lambda>r c. {}) m0 m1 i)"
    by blast
  from pattern_populator_adds [OF adds_column adds_nothing assms(2), of p1]
  obtain p2 where p2: "pattern_populator p1 m1 m0 column_inserter do_nothing_inserter = Inr p2"
    "set p2 = set p1 \<union> (\<Union>i\<in>{0..<num_nodes (cell_to_slaves m1)}. cell_entries (\<lambda>r c. set c \<times> set r) (\<lambda>r c. {}) m1 m0 i)"
    by blast
  show ?thesis
    using p1 p2 by (simp add: rectangular_path_def)
qed

lemma for_each_failure:
  assumes "for_each f xs s = Inl e"
  shows "\<exists>x\<in>set xs. \<exists>s'. f x s' = Inl e"
  using assms
  by (induction xs arbitrary: s) (auto split: sum.splits)

lemma flatten_slave_failure:
  assumes "flatten_slave mpc slave fm = Inl e"
  shows "e = Out_of_range \<or> e = Undefined_division"
proof (cases "links_at (masters mpc) slave")
  case (Inl e')
  with assms show ?thesis
    by (auto simp: flatten_slave_def links_at_def split: if_splits)
next
  case (Inr ms)
  with assms have "for_each (push_master_block (index_map_bs (mpc_function_space mpc))) ms fm = Inl e"
    by (simp add: flatten_slave_def)
  from for_each_failure [OF this] show ?thesis
    by (auto simp: push_master_block_def std_div_def split: if_splits sum.splits)
qed

lemma populate_cell_failure:
  assumes "populate_cell mpc mpc_off_axis pins mins i p = Inl e"
  shows "e = Out_of_range \<or> e = Undefined_division"
proof -
  from assms consider
    "read_at (cell_dofs (mpc_function_space mpc_off_axis)) (int i) = Inl e"
    | "for_each (flatten_slave mpc) (links (cell_to_slaves mpc) i) [] = Inl e"
    by (auto simp: populate_cell_def Let_def split: if_splits sum.splits)
  then show ?thesis
  proof cases
    case 1
    then show ?thesis by (auto simp: read_at_def split: if_splits)
  next
    case 2
    from for_each_failure [OF this] show ?thesis
      using flatten_slave_failure by blast
  qed
qed

lemma pattern_populator_failure:
  assumes "pattern_populator p mpc mpc_off_axis pins mins = Inl e"
  shows "e = Out_of_range \<or> e = Undefined_division"
  using for_each_failure [OF assms [unfolded pattern_populator_def]] populate_cell_failure
  by blast

lemma paths_failure:
  "square_path p m0 m1 = Inl e \<Longrightarrow> e = Out_of_range \<or> e = Undefined_division"
  "rectangular_path p m0 m1 = Inl e \<Longrightarrow> e = Out_of_range \<or> e = Undefined_division"
  by (auto simp: square_path_def rectangular_path_def split: sum.splits
      dest: pattern_populator_failure)

text \<open>
  Claim C7. When the rank of the form is not 2, \<^verbatim>\<open>create_sparsity_pattern\<close> throws the
  runtime error "Cannot create sparsity pattern. Form is not a bilinear form", whatever
  the constraint pointers hold and whatever the standard pattern would be: the throw
  comes before any pointer is followed and before any pattern is built. When the rank
  is 2 the function does not throw a runtime error at all: it returns a pattern or
  runs into undefined behaviour.
\<close>

theorem not_bilinear_throws_first:
  "(form_rank a \<noteq> 2 \<longrightarrow>
      create_sparsity_pattern build_standard_pattern store a mpc0 mpc1
        = Inl (Runtime_error not_bilinear)) \<and>
   (form_rank a = 2 \<longrightarrow>
      (\<forall>msg. create_sparsity_pattern build_standard_pattern store a mpc0 mpc1
        \<noteq> Inl (Runtime_error msg)))"
proof (intro conjI impI allI)
  assume "form_rank a \<noteq> 2"
  then show "create_sparsity_pattern build_standard_pattern store a mpc0 mpc1
      = Inl (Runtime_error not_bilinear)"
    by (simp add: create_sparsity_pattern_def)
next
  fix msg
  assume r: "form_rank a = 2"
  show "create_sparsity_pattern build_standard_pattern store a mpc0 mpc1 \<noteq> Inl (Runtime_error msg)"
  proof
    assume "create_sparsity_pattern build_standard_pattern store a mpc0 mpc1 = Inl (Runtime_error msg)"
    with r show False
      by (auto simp: create_sparsity_pattern_def deref_def Let_def
          split: option.splits if_splits dest: paths_failure)
  qed
qed

theorem not_bilinear_throws_first_witness:
  "form_rank linear_form \<noteq> 2 \<and>
   create_sparsity_pattern one_cell_standard_pattern (\<lambda>ptr. None) linear_form 0 0
     = Inl (Runtime_error not_bilinear) \<and>
   form_rank bilinear_form = 2 \<and>
   create_sparsity_pattern one_cell_standard_pattern (\<lambda>ptr. None) bilinear_form 0 0
     \<noteq> Inl (Runtime_error not_bilinear)"
  using not_bilinear_throws_first [of linear_form one_cell_standard_pattern "\<lambda>ptr. None" 0 0]
    not_bilinear_throws_first [of bilinear_form one_cell_standard_pattern "\<lambda>ptr. None" 0 0]
  by (simp add: linear_form_def bilinear_form_def)

lemma master_entries_square_dofs:
  assumes "m \<in> set fm" and "d \<in> set cd"
  shows "(m, d) \<in> master_entries (\<lambda>r c. set r \<times> set c \<union> set c \<times> set r) M cd fm"
    and "(d, m) \<in> master_entries (\<lambda>r c. set r \<times> set c \<union> set c \<times> set r) M cd fm"
proof -
  from assms(1) obtain j where "j < length fm" "fm ! j = m"
    by (auto simp: in_set_conv_nth)
  with assms(2) show "(m, d) \<in> master_entries (\<lambda>r c. set r \<times> set c \<union> set c \<times> set r) M cd fm"
    and "(d, m) \<in> master_entries (\<lambda>r c. set r \<times> set c \<union> set c \<times> set r) M cd fm"
    unfolding master_entries_def by force+
qed

lemma master_entries_square_cross:
  assumes "j < k" and "k < length fm"
  shows "(fm ! j, fm ! k) \<in> master_entries P (\<lambda>r c. set r \<times> set c \<union> set c \<times> set r) cd fm"
    and "(fm ! k, fm ! j) \<in> master_entries P (\<lambda>r c. set r \<times> set c \<union> set c \<times> set r) cd fm"
proof -
  from assms have "j \<in> {0..<length fm}" "k \<in> {Suc j..<length fm}" by auto
  then show "(fm ! j, fm ! k) \<in> master_entries P (\<lambda>r c. set r \<times> set c \<union> set c \<times> set r) cd fm"
    and "(fm ! k, fm ! j) \<in> master_entries P (\<lambda>r c. set r \<times> set c \<union> set c \<times> set r) cd fm"
    unfolding master_entries_def by force+
qed

lemma create_sparsity_pattern_square:
  assumes "form_rank a = 2" and "store mpc0 = Some mpc"
  shows "create_sparsity_pattern build_standard_pattern store a mpc0 mpc0
           = square_path (build_standard_pattern a []) mpc mpc"
  using assms by (simp add: create_sparsity_pattern_def deref_def)

text \<open>
  Claim C1. In the square case (both constraint pointers are the same address),
  on inputs where all reads are in range, \<^verbatim>\<open>create_sparsity_pattern\<close> returns a pattern,
  and for every cell \<open>i\<close> with at least one slave: the masters flattened by the code
  are the masters of the slaves of the cell divided by the block size; for each such
  master block \<open>m\<close> and each dof block \<open>d\<close> of the cell, the pattern holds \<open>(m, d)\<close> and
  \<open>(d, m)\<close>; and for all positions \<open>j < k\<close> of the flattened masters, the pattern holds
  both cross entries.
\<close>

theorem square_pattern_master_entries:
  assumes "form_rank a = 2" and "store mpc0 = Some mpc" and "populator_ok mpc mpc"
    and "i < num_nodes (cell_to_slaves mpc)" and "links (cell_to_slaves mpc) i \<noteq> []"
  shows "\<exists>pattern. create_sparsity_pattern build_standard_pattern store a mpc0 mpc0 = Inr pattern \<and>
     for_each (flatten_slave mpc) (links (cell_to_slaves mpc) i) [] = Inr (flattened_masters mpc i) \<and>
     (\<forall>slave\<in>set (links (cell_to_slaves mpc) i).
        \<forall>master\<in>set (links (masters mpc) (nat slave)).
          \<forall>d\<in>set (cell_dofs (mpc_function_space mpc) ! i).
            (master sdiv index_map_bs (mpc_function_space mpc), d) \<in> set pattern \<and>
            (d, master sdiv index_map_bs (mpc_function_space mpc)) \<in> set pattern) \<and>
     (\<forall>j k. j < k \<and> k < length (flattened_masters mpc i) \<longrightarrow>
        (flattened_masters mpc i ! j, flattened_masters mpc i ! k) \<in> set pattern \<and>
        (flattened_masters mpc i ! k, flattened_masters mpc i ! j) \<in> set pattern)"
proof -
  let ?Sq = "\<lambda>r c. set r \<times> set c \<union> set c \<times> set (r :: int list)"
  let ?fm = "flattened_masters mpc i"
  let ?cd = "cell_dofs (mpc_function_space mpc) ! i"
  from square_path_entries [OF assms(3), of "build_standard_pattern a []"]
  obtain pattern where pat: "square_path (build_standard_pattern a []) mpc mpc = Inr pattern"
    and ent: "set pattern = set (build_standard_pattern a []) \<union>
        (\<Union>i\<in>{0..<num_nodes (cell_to_slaves mpc)}. cell_entries ?Sq ?Sq mpc mpc i)"
    by blast
  have cell: "master_entries ?Sq ?Sq ?cd ?fm \<subseteq> set pattern"
    using assms(4,5) unfolding ent by (auto simp: cell_entries_def)
  from assms(3,4,5) have ok: "list_all (slave_ok mpc) (links (cell_to_slaves mpc) i)"
    by (auto simp: populator_ok_def cell_ok_def list_all_iff)
  have fl: "for_each (flatten_slave mpc) (links (cell_to_slaves mpc) i) [] = Inr ?fm"
    using ok by (simp add: flatten_slaves_ok flattened_masters_def)
  have dofs: "(master sdiv index_map_bs (mpc_function_space mpc), d) \<in> set pattern \<and>
      (d, master sdiv index_map_bs (mpc_function_space mpc)) \<in> set pattern"
    if "slave \<in> set (links (cell_to_slaves mpc) i)"
      and "master \<in> set (links (masters mpc) (nat slave))" and "d \<in> set ?cd"
    for slave master d
  proof -
    from that(1,2) have "master sdiv index_map_bs (mpc_function_space mpc) \<in> set ?fm"
      by (auto simp: flattened_masters_def master_blocks_def)
    from master_entries_square_dofs [OF this that(3)] cell show ?thesis by blast
  qed
  have cross: "(?fm ! j, ?fm ! k) \<in> set pattern \<and> (?fm ! k, ?fm ! j) \<in> set pattern"
    if "j < k" and "k < length ?fm" for j k
    using master_entries_square_cross [OF that] cell by blast
  from pat assms(1,2)
  have "create_sparsity_pattern build_standard_pattern store a mpc0 mpc0 = Inr pattern"
    by (simp add: create_sparsity_pattern_square)
  with fl dofs cross show ?thesis by blast
qed

lemma one_cell_ok: "populator_ok one_cell_mpc one_cell_mpc"
  by code_simp

lemma one_cell_slaves: "links (cell_to_slaves one_cell_mpc) 0 = [0, 1]"
  by code_simp

lemma one_cell_flattened: "flattened_masters one_cell_mpc 0 = [3, 4]"
  by code_simp

lemma one_cell_cross_pairs: "master_cross_pairs one_cell_mpc = [(4, 3), (3, 4)]"
  by code_simp

lemma one_cell_square:
  "square_path [] one_cell_mpc one_cell_mpc =
     Inr [(3, 0), (3, 1), (3, 2), (0, 3), (1, 3), (2, 3), (4, 3), (3, 4),
          (4, 0), (4, 1), (4, 2), (0, 4), (1, 4), (2, 4)]"
  by code_simp

lemma one_cell_rectangular:
  "rectangular_path [] one_cell_mpc one_cell_mpc =
     Inr [(3, 0), (3, 1), (3, 2), (4, 0), (4, 1), (4, 2), (0, 3), (1, 3),
          (2, 3), (0, 4), (1, 4), (2, 4)]"
  by code_simp

theorem square_pattern_master_entries_witness:
  "form_rank bilinear_form = 2 \<and> one_cell_store 0 = Some one_cell_mpc \<and>
   populator_ok one_cell_mpc one_cell_mpc \<and> 0 < num_nodes (cell_to_slaves one_cell_mpc) \<and>
   links (cell_to_slaves one_cell_mpc) 0 = [0, 1] \<and>
   flattened_masters one_cell_mpc 0 = [3, 4] \<and>
   (\<exists>pattern.
      create_sparsity_pattern one_cell_standard_pattern one_cell_store bilinear_form 0 0
        = Inr pattern \<and>
      (3, 2) \<in> set pattern \<and> (2, 3) \<in> set pattern \<and>
      (4, 2) \<in> set pattern \<and> (2, 4) \<in> set pattern \<and>
      (3, 4) \<in> set pattern \<and> (4, 3) \<in> set pattern)"
proof -
  have h1: "form_rank bilinear_form = 2" by (simp add: bilinear_form_def)
  have h2: "one_cell_store 0 = Some one_cell_mpc" by (simp add: one_cell_store_def)
  have h4: "0 < num_nodes (cell_to_slaves one_cell_mpc)"
    by (simp add: num_nodes_def one_cell_mpc_def)
  have h5: "links (cell_to_slaves one_cell_mpc) 0 \<noteq> []" by (simp add: one_cell_slaves)
  have m0: "links (masters one_cell_mpc) (nat 0) = [6]" by code_simp
  have m1: "links (masters one_cell_mpc) (nat 1) = [8]" by code_simp
  have cd: "cell_dofs (mpc_function_space one_cell_mpc) ! 0 = [0, 1, 2]"
    by (simp add: one_cell_mpc_def)
  have bs: "index_map_bs (mpc_function_space one_cell_mpc) = 2"
    by (simp add: one_cell_mpc_def)
  have q: "(6::int) sdiv 2 = 3" "(8::int) sdiv 2 = 4"
    by (simp_all add: signed_divide_int_def)
  from square_pattern_master_entries [where a = bilinear_form and store = one_cell_store
      and ?mpc0.0 = 0 and mpc = one_cell_mpc and i = 0
      and build_standard_pattern = one_cell_standard_pattern, OF h1 h2 one_cell_ok h4 h5]
  obtain pattern where
    pat: "create_sparsity_pattern one_cell_standard_pattern one_cell_store bilinear_form 0 0
        = Inr pattern"
    and dofs: "\<forall>slave\<in>set [0, 1].
        \<forall>master\<in>set (links (masters one_cell_mpc) (nat slave)).
          \<forall>d\<in>set [0, 1, 2].
            (master sdiv 2, d) \<in> set pattern \<and> (d, master sdiv 2) \<in> set pattern"
    and cross: "\<forall>j k. j < k \<and> k < length [3, 4 :: int] \<longrightarrow>
        ([3, 4] ! j, [3, 4] ! k) \<in> set pattern \<and> ([3, 4] ! k, [3, 4] ! j) \<in> set pattern"
    unfolding one_cell_slaves one_cell_flattened cd bs by blast
  from dofs m0 m1 q have "(3, 2) \<in> set pattern \<and> (2, 3) \<in> set pattern \<and>
      (4, 2) \<in> set pattern \<and> (2, 4) \<in> set pattern"
    by simp
  moreover from cross [rule_format, of 0 1] have "(3, 4) \<in> set pattern \<and> (4, 3) \<in> set pattern"
    by simp
  ultimately show ?thesis
    using h1 h2 one_cell_ok h4 one_cell_slaves one_cell_flattened pat by blast
qed

text \<open>
  Claim C2, as stated: the entries of the square path would equal the entries of the
  two rectangular traversals run on the same constraint. In the scenario of one cell
  with two slaves, the square path inserts the pair of the two master blocks, \<open>(3, 4)\<close>,
  through its master inserter; the rectangular traversals, whose master inserter does
  nothing, do not.
\<close>

theorem square_equals_rectangular_counterexample:
  "populator_ok one_cell_mpc one_cell_mpc \<and>
   (\<exists>p q. square_path [] one_cell_mpc one_cell_mpc = Inr p \<and>
          rectangular_path [] one_cell_mpc one_cell_mpc = Inr q \<and>
          (3, 4) \<in> set p \<and> (3, 4) \<notin> set q \<and> set p \<noteq> set q)"
proof -
  let ?p = "[(3, 0), (3, 1), (3, 2), (0, 3), (1, 3), (2, 3), (4, 3), (3, 4),
          (4, 0), (4, 1), (4, 2), (0, 4), (1, 4), (2, 4)] :: (int \<times> int) list"
  let ?q = "[(3, 0), (3, 1), (3, 2), (4, 0), (4, 1), (4, 2), (0, 3), (1, 3),
          (2, 3), (0, 4), (1, 4), (2, 4)] :: (int \<times> int) list"
  have a: "(3, 4) \<in> set ?p" by simp
  have b: "(3, 4) \<notin> set ?q" by simp
  from a b have "set ?p \<noteq> set ?q" by metis
  with a b one_cell_ok one_cell_square one_cell_rectangular show ?thesis by blast
qed

text \<open>
  Claim C2, amended: on inputs where all reads are in range, and from the same starting
  pattern, the entries of the square path are the entries of the two rectangular
  traversals run on that one constraint, together with the cross pairs of the master
  blocks of each cell, which only the master inserter of the square path adds.
\<close>

theorem square_adds_master_cross_pairs:
  assumes "populator_ok mpc mpc"
  shows "\<exists>p q. square_path pattern mpc mpc = Inr p \<and> rectangular_path pattern mpc mpc = Inr q \<and>
          set p = set q \<union> set (master_cross_pairs mpc)"
proof -
  from square_path_entries [OF assms, of pattern] obtain p where p:
    "square_path pattern mpc mpc = Inr p"
    "set p = set pattern \<union> (\<Union>i\<in>{0..<num_nodes (cell_to_slaves mpc)}.
        cell_entries (\<lambda>r c. set r \<times> set c \<union> set c \<times> set r) (\<lambda>r c. set r \<times> set c \<union> set c \<times> set r) mpc mpc i)"
    by blast
  from rectangular_path_entries [OF assms assms, of pattern] obtain q where q:
    "rectangular_path pattern mpc mpc = Inr q"
    "set q = set pattern \<union>
       (\<Union>i\<in>{0..<num_nodes (cell_to_slaves mpc)}. cell_entries (\<lambda>r c. set r \<times> set c) (\<lambda>r c. {}) mpc mpc i) \<union>
       (\<Union>i\<in>{0..<num_nodes (cell_to_slaves mpc)}. cell_entries (\<lambda>r c. set c \<times> set r) (\<lambda>r c. {}) mpc mpc i)"
    by blast
  have "set p = set q \<union> set (master_cross_pairs mpc)"
    unfolding p(2) q(2) cell_entries_square set_master_cross_pairs by (simp add: Un_assoc)
  with p(1) q(1) show ?thesis by blast
qed

theorem square_adds_master_cross_pairs_witness:
  "populator_ok one_cell_mpc one_cell_mpc \<and>
   (\<exists>p q. square_path [] one_cell_mpc one_cell_mpc = Inr p \<and>
          rectangular_path [] one_cell_mpc one_cell_mpc = Inr q \<and>
          set p = set q \<union> {(4, 3), (3, 4)})"
  using square_adds_master_cross_pairs [OF one_cell_ok, of "[]"] one_cell_ok
  by (simp add: one_cell_cross_pairs)

section \<open>Properties of the map from dof blocks to entities\<close>

lemma for_each_append:
  "for_each f (xs @ ys) s =
     (case for_each f xs s of Inl e \<Rightarrow> Inl e | Inr s' \<Rightarrow> for_each f ys s')"
  by (induction xs arbitrary: s) (auto split: sum.splits)

lemma for_each_cong:
  assumes "\<And>x s. x \<in> set xs \<Longrightarrow> f x s = g x s"
  shows "for_each f xs s = for_each g xs s"
  using assms by (induction xs arbitrary: s) (auto split: sum.splits)

lemma for_each_map: "for_each f (map h xs) s = for_each (\<lambda>x. f (h x)) xs s"
  by (induction xs arbitrary: s) (auto split: sum.splits)

lemma for_each_concat:
  "for_each f (concat xss) s = for_each (\<lambda>xs. for_each f xs) xss s"
  by (induction xss arbitrary: s) (auto simp: for_each_append split: sum.splits)

lemma for_each_nth:
  "for_each (\<lambda>i. f (xs ! i)) [0..<length xs] s = for_each f xs s"
proof -
  have "for_each (\<lambda>i. f (xs ! i)) [0..<length xs] s = for_each f (map (\<lambda>i. xs ! i) [0..<length xs]) s"
    by (simp add: for_each_map)
  then show ?thesis by (simp add: map_nth)
qed

lemma for_each_checked_read:
  assumes "list_all (\<lambda>c. in_range c (length cb)) cls"
  shows "for_each (\<lambda>c s. case read_at cb c of Inl e \<Rightarrow> Inl e | Inr d \<Rightarrow> g d s) cls s
       = for_each g (map (\<lambda>c. cb ! nat c) cls) s"
  using assms by (induction cls arbitrary: s) (auto simp: read_at_def split: sum.splits)

lemma find_position_le: "find_position x xs \<le> length xs"
  by (induction xs) auto

lemma find_position_less: "x \<in> set xs \<Longrightarrow> find_position x xs < length xs"
  by (induction xs) auto

lemma find_position_nth: "x \<in> set xs \<Longrightarrow> xs ! find_position x xs = x"
  by (induction xs) auto

lemma increment_ok:
  assumes "in_range dof (length counts)" and "int (counts ! nat dof) < 2 ^ 31 - 1"
  shows "increment counts dof = Inr (bump dof counts)"
  using assms by (simp add: increment_def bump_def)

lemma length_bump [simp]: "length (bump dof counts) = length counts"
  by (simp add: bump_def)

lemma length_fold_bump [simp]: "length (fold bump dofs counts) = length counts"
  by (induction dofs arbitrary: counts) auto

lemma nth_bump:
  assumes "in_range dof (length counts)" and "b < length counts"
  shows "bump dof counts ! b = counts ! b + (if dof = int b then 1 else 0)"
  using assms by (auto simp: bump_def in_range_def nth_list_update)

lemma nth_fold_bump:
  assumes "list_all (\<lambda>d. in_range d (length counts)) dofs" and "b < length counts"
  shows "fold bump dofs counts ! b = counts ! b + count_list dofs (int b)"
  using assms
proof (induction dofs arbitrary: counts)
  case Nil
  then show ?case by simp
next
  case (Cons d dofs)
  then have "fold bump dofs (bump d counts) ! b = bump d counts ! b + count_list dofs (int b)"
    by simp
  with Cons.prems show ?case by (simp add: nth_bump)
qed

lemma count_dofs:
  assumes "list_all (\<lambda>d. in_range d (length counts)) dofs"
    and "\<And>b. b < length counts \<Longrightarrow> int (counts ! b) + int (length dofs) < 2 ^ 31"
  shows "for_each (\<lambda>d c. increment c d) dofs counts = Inr (fold bump dofs counts)"
  using assms
proof (induction dofs arbitrary: counts)
  case Nil
  then show ?case by simp
next
  case (Cons d dofs)
  from Cons.prems(1) have d: "in_range d (length counts)" by simp
  then have "nat d < length counts" by (simp add: in_range_def)
  from Cons.prems(2) [OF this] have "int (counts ! nat d) < 2 ^ 31 - 1" by simp
  with d have inc: "increment counts d = Inr (bump d counts)" by (rule increment_ok)
  have "for_each (\<lambda>d c. increment c d) dofs (bump d counts) = Inr (fold bump dofs (bump d counts))"
  proof (rule Cons.IH)
    show "list_all (\<lambda>x. in_range x (length (bump d counts))) dofs"
      using Cons.prems(1) by simp
    fix b assume "b < length (bump d counts)"
    then have b: "b < length counts" by simp
    from Cons.prems(2) [OF b] nth_bump [OF d b]
    show "int (bump d counts ! b) + int (length dofs) < 2 ^ 31" by (simp split: if_splits)
  qed
  with inc show ?case by simp
qed

lemma fold_bump_block_counts:
  assumes "list_all (\<lambda>d. in_range d n) dofs"
  shows "fold bump dofs (block_counts n dofs0) = block_counts n (dofs0 @ dofs)"
proof (rule nth_equalityI)
  show "length (fold bump dofs (block_counts n dofs0)) = length (block_counts n (dofs0 @ dofs))"
    by (simp add: block_counts_def)
  fix b assume "b < length (fold bump dofs (block_counts n dofs0))"
  then have b: "b < n" by (simp add: block_counts_def)
  with assms have "fold bump dofs (block_counts n dofs0) ! b
      = block_counts n dofs0 ! b + count_list dofs (int b)"
    by (intro nth_fold_bump) (simp_all add: block_counts_def)
  with b show "fold bump dofs (block_counts n dofs0) ! b = block_counts n (dofs0 @ dofs) ! b"
    by (simp add: block_counts_def)
qed

lemma count_list_le_length: "count_list xs x \<le> length xs"
  by (induction xs) auto

lemma locate_entity_ok:
  assumes "in_range entity (num_nodes (e_to_c V))"
    and "length (links (e_to_c V) (nat entity)) = 1"
    and "entity_reads_ok V entity"
  shows "locate_entity V entity = Inr (cell_of V entity, local_index_of V entity)"
proof -
  from assms(3) have c: "in_range (cell_of V entity) (num_nodes (c_to_e V))"
    and m: "entity \<in> set (links (c_to_e V) (nat (cell_of V entity)))"
    by (simp_all add: entity_reads_ok_def)
  from find_position_less [OF m]
  have "find_position entity (links (c_to_e V) (nat (cell_of V entity)))
      \<noteq> length (links (c_to_e V) (nat (cell_of V entity)))"
    by simp
  with assms(1,2) c show ?thesis
    by (simp add: locate_entity_def links_at_def cell_of_def local_index_of_def)
qed

lemma count_entity_ok:
  assumes "in_range (entities ! i) (num_nodes (e_to_c V))"
    and "length (links (e_to_c V) (nat (entities ! i))) = 1"
    and "entity_reads_ok V (entities ! i)"
    and "length counts = num_dofs V"
    and "\<And>b. b < length counts \<Longrightarrow>
           int (counts ! b) + int (length (blocks_of V (entities ! i))) < 2 ^ 31"
  shows "count_entity V entities i (counts, lis, cells) =
     Inr (fold bump (blocks_of V (entities ! i)) counts,
          lis[i := local_index_of V (entities ! i)], cells[i := cell_of V (entities ! i)])"
proof -
  let ?e = "entities ! i"
  let ?cb = "dofmap_cell_dofs V ! nat (cell_of V ?e)"
  from assms(3) have c: "in_range (cell_of V ?e) (length (dofmap_cell_dofs V))"
    and l: "local_index_of V ?e < length (entity_closure_dofs V)"
    and cl: "list_all (\<lambda>closure_block. in_range closure_block (length ?cb)) (closure_blocks_of V ?e)"
    and bl: "list_all (\<lambda>block. in_range block (num_dofs V)) (blocks_of V ?e)"
    by (simp_all add: entity_reads_ok_def)
  have rd1: "read_at (dofmap_cell_dofs V) (cell_of V ?e) = Inr ?cb"
    using c by (simp add: read_at_def)
  have rd2: "read_at (entity_closure_dofs V) (int (local_index_of V ?e)) = Inr (closure_blocks_of V ?e)"
    using l by (simp add: read_at_def in_range_def closure_blocks_of_def)
  have "for_each (count_block ?cb) (closure_blocks_of V ?e) counts
      = for_each (\<lambda>d c. increment c d) (map (\<lambda>c. ?cb ! nat c) (closure_blocks_of V ?e)) counts"
    unfolding count_block_def by (rule for_each_checked_read [OF cl])
  also have "map (\<lambda>c. ?cb ! nat c) (closure_blocks_of V ?e) = blocks_of V ?e"
    by (simp add: blocks_of_def)
  also have "for_each (\<lambda>d c. increment c d) (blocks_of V ?e) counts
      = Inr (fold bump (blocks_of V ?e) counts)"
    using bl assms(4,5) by (intro count_dofs) simp_all
  finally have inner: "for_each (count_block ?cb) (closure_blocks_of V ?e) counts
      = Inr (fold bump (blocks_of V ?e) counts)" .
  show ?thesis
    by (simp add: count_entity_def locate_entity_ok [OF assms(1,2,3)] rd1 rd2 inner)
qed

lemma incidences_append:
  "incidences V (xs @ ys) = incidences V xs @ incidences V ys"
  by (simp add: incidences_def)

lemma incidences_take_Suc:
  assumes "k < length entities"
  shows "incidences V (take (Suc k) entities) =
     incidences V (take k entities) @ map (\<lambda>block. (block, entities ! k)) (blocks_of V (entities ! k))"
  using assms by (simp add: take_Suc_conv_app_nth incidences_append) (simp add: incidences_def)

lemma length_incidences_take:
  "length (incidences V (take k entities)) \<le> length (incidences V entities)"
proof -
  have "incidences V entities = incidences V (take k entities) @ incidences V (drop k entities)"
    by (simp add: incidences_append [symmetric])
  then show ?thesis by (metis le_add1 length_append)
qed

lemma update_prefix_fill:
  assumes "k < length es"
  shows "(map f (take k es) @ replicate (length es - k) z)[k := f (es ! k)]
       = map f (take (Suc k) es) @ replicate (length es - Suc k) z"
proof (rule nth_equalityI)
  show "length ((map f (take k es) @ replicate (length es - k) z)[k := f (es ! k)])
      = length (map f (take (Suc k) es) @ replicate (length es - Suc k) z)"
    using assms by simp
  fix j assume "j < length ((map f (take k es) @ replicate (length es - k) z)[k := f (es ! k)])"
  with assms have j: "j < length es" by simp
  with assms show "(map f (take k es) @ replicate (length es - k) z)[k := f (es ! k)] ! j
      = (map f (take (Suc k) es) @ replicate (length es - Suc k) z) ! j"
    by (auto simp: nth_list_update nth_append less_Suc_eq)
qed

lemma one_incident_cell_take_Suc:
  assumes "k < length entities" and "one_incident_cell V (take (Suc k) entities)"
  shows "one_incident_cell V (take k entities)"
    and "in_range (entities ! k) (num_nodes (e_to_c V))"
    and "length (links (e_to_c V) (nat (entities ! k))) = 1"
  using assms by (simp_all add: one_incident_cell_def take_Suc_conv_app_nth)

lemma reads_ok_take_Suc:
  assumes "k < length entities" and "reads_ok V (take (Suc k) entities)"
  shows "reads_ok V (take k entities)" and "entity_reads_ok V (entities ! k)"
  using assms by (simp_all add: reads_ok_def take_Suc_conv_app_nth incidences_append)

lemma first_pass_prefix:
  assumes "k \<le> length entities"
    and "one_incident_cell V (take k entities)" and "reads_ok V (take k entities)"
  shows "for_each (count_entity V entities) [0..<k]
           (replicate (num_dofs V) 0, replicate (length entities) 0, replicate (length entities) 0)
       = Inr (block_counts (num_dofs V) (map fst (incidences V (take k entities))),
              map (local_index_of V) (take k entities) @ replicate (length entities - k) 0,
              map (cell_of V) (take k entities) @ replicate (length entities - k) 0)"
  using assms
proof (induction k)
  case 0
  have "block_counts (num_dofs V) [] = replicate (num_dofs V) 0"
    by (simp add: block_counts_def map_replicate_const)
  then show ?case by (simp add: incidences_def)
next
  case (Suc k)
  then have k: "k < length entities" by simp
  let ?e = "entities ! k"
  let ?counts = "block_counts (num_dofs V) (map fst (incidences V (take k entities)))"
  note one = one_incident_cell_take_Suc [OF k Suc.prems(2)]
  note rd = reads_ok_take_Suc [OF k Suc.prems(3)]
  from rd(2) have bl: "list_all (\<lambda>block. in_range block (num_dofs V)) (blocks_of V ?e)"
    by (simp add: entity_reads_ok_def)
  have len: "length ?counts = num_dofs V" by (simp add: block_counts_def)
  have bound: "int (?counts ! b) + int (length (blocks_of V ?e)) < 2 ^ 31" if "b < length ?counts" for b
  proof -
    from that have "?counts ! b = count_list (map fst (incidences V (take k entities))) (int b)"
      by (simp add: block_counts_def)
    also have "\<dots> \<le> length (incidences V (take k entities))"
      using count_list_le_length [of "map fst (incidences V (take k entities))" "int b"] by simp
    finally have "?counts ! b + length (blocks_of V ?e) \<le> length (incidences V (take (Suc k) entities))"
      by (simp add: incidences_take_Suc [OF k])
    then show ?thesis using Suc.prems(3) by (simp add: reads_ok_def)
  qed
  have step: "count_entity V entities k (?counts,
        map (local_index_of V) (take k entities) @ replicate (length entities - k) 0,
        map (cell_of V) (take k entities) @ replicate (length entities - k) 0)
      = Inr (block_counts (num_dofs V) (map fst (incidences V (take (Suc k) entities))),
             map (local_index_of V) (take (Suc k) entities) @ replicate (length entities - Suc k) 0,
             map (cell_of V) (take (Suc k) entities) @ replicate (length entities - Suc k) 0)"
    by (simp add: count_entity_ok [OF one(2,3) rd(2) len bound] fold_bump_block_counts [OF bl]
        incidences_take_Suc [OF k] update_prefix_fill [OF k] comp_def)
  from Suc.IH [OF _ one(1) rd(1)] k show ?case
    by (simp add: for_each_append step)
qed

lemma first_pass_ok:
  assumes "one_incident_cell V entities" and "reads_ok V entities"
  shows "first_pass V entities
       = Inr (block_counts (num_dofs V) (map fst (incidences V entities)),
              map (local_index_of V) entities, map (cell_of V) entities)"
  using first_pass_prefix [of "length entities" entities V] assms by (simp add: first_pass_def)

lemma length_partial_sum [simp]: "length (partial_sum acc xs) = length xs"
  by (induction xs arbitrary: acc) auto

lemma partial_sum_nth:
  "i < length xs \<Longrightarrow> partial_sum acc xs ! i = acc + sum_list (take (Suc i) xs)"
proof (induction xs arbitrary: acc i)
  case Nil
  then show ?case by simp
next
  case (Cons x xs)
  then show ?case by (cases i) (auto simp: add.assoc)
qed

lemma offsets_nth:
  "b \<le> length xs \<Longrightarrow> (0 # partial_sum 0 xs) ! b = sum_list (take b xs)"
  by (cases b) (auto simp: partial_sum_nth)

lemma offsets_Suc:
  assumes "b < length xs"
  shows "(0 # partial_sum 0 xs) ! Suc b = (0 # partial_sum 0 xs) ! b + xs ! b"
proof -
  from assms have "(0 # partial_sum 0 xs) ! Suc b = sum_list (take (Suc b) xs)"
    using offsets_nth [of "Suc b" xs] by simp
  also from assms have "\<dots> = sum_list (take b xs) + xs ! b"
    by (simp add: take_Suc_conv_app_nth)
  finally show ?thesis using assms by (simp add: offsets_nth)
qed

lemma offsets_mono:
  assumes "b \<le> b'" and "b' \<le> length xs"
  shows "(0 # partial_sum 0 xs) ! b \<le> (0 # partial_sum 0 xs) ! b'"
proof -
  from assms have "take b' xs = take b xs @ take (b' - b) (drop b xs)"
    by (metis le_add_diff_inverse take_add)
  then have "sum_list (take b xs) \<le> sum_list (take b' xs)" by simp
  with assms show ?thesis by (simp add: offsets_nth)
qed

lemma last_offsets: "last (0 # partial_sum 0 xs) = sum_list xs"
proof -
  have "last (0 # partial_sum 0 xs) = (0 # partial_sum 0 xs) ! (length (0 # partial_sum 0 xs) - 1)"
    by (rule last_conv_nth) simp
  also have "\<dots> = (0 # partial_sum 0 xs) ! length xs" by simp
  finally show ?thesis by (simp add: offsets_nth)
qed

lemma sum_list_block_counts:
  assumes "list_all (\<lambda>d. in_range d n) dofs"
  shows "sum_list (block_counts n dofs) = length dofs"
  using assms
proof (induction dofs)
  case Nil
  then show ?case by (simp add: block_counts_def)
next
  case (Cons d dofs)
  then have d: "0 \<le> d" "nat d < n" by (simp_all add: in_range_def)
  have "sum_list (block_counts n (d # dofs))
      = (\<Sum>b\<leftarrow>[0..<n]. count_list dofs (int b) + (if b = nat d then 1 else 0))"
    unfolding block_counts_def using d
    by (intro arg_cong [where f = sum_list] map_cong) auto
  also have "\<dots> = sum_list (block_counts n dofs) + (\<Sum>b\<leftarrow>[0..<n]. if b = nat d then 1 else 0)"
    by (simp add: sum_list_addf block_counts_def)
  also have "(\<Sum>b\<leftarrow>[0..<n]. if b = nat d then 1 else 0) = (1::nat)"
    using d by (simp add: interv_sum_list_conv_sum_set_nat)
  finally show ?case using Cons by simp
qed

lemma take_drop_update_outside:
  assumes "p < off \<or> off + c \<le> p"
  shows "take c (drop off (xs[p := e])) = take c (drop off xs)"
proof (rule nth_equalityI)
  show "length (take c (drop off (xs[p := e]))) = length (take c (drop off xs))" by simp
  fix j assume "j < length (take c (drop off (xs[p := e])))"
  then have "j < c" "off + j < length xs" by auto
  with assms show "take c (drop off (xs[p := e])) ! j = take c (drop off xs) ! j"
    by (auto simp: nth_list_update)
qed

lemma take_drop_update_end:
  assumes "off + c < length xs"
  shows "take (Suc c) (drop off (xs[off + c := e])) = take c (drop off xs) @ [e]"
proof -
  from assms have "c < length (drop off (xs[off + c := e]))" by simp
  then have "take (Suc c) (drop off (xs[off + c := e]))
      = take c (drop off (xs[off + c := e])) @ [drop off (xs[off + c := e]) ! c]"
    by (rule take_Suc_conv_app_nth)
  moreover have "take c (drop off (xs[off + c := e])) = take c (drop off xs)"
    by (rule take_drop_update_outside) simp
  moreover from assms have "drop off (xs[off + c := e]) ! c = e" by simp
  ultimately show ?thesis by simp
qed

lemma count_list_filter_snd:
  "count_list (map snd (filter (\<lambda>p. fst p = b) ps)) e = count_list ps (b, e)"
  by (induction ps) (auto simp: prod_eq_iff)

lemma block_counts_nth:
  "b < n \<Longrightarrow> block_counts n dofs ! b = count_list dofs (int b)"
  by (simp add: block_counts_def)

lemma length_block_counts [simp]: "length (block_counts n dofs) = n"
  by (simp add: block_counts_def)

lemma write_entity_step:
  fixes n :: nat and all :: "(int \<times> int) list"
  assumes offs: "offs = 0 # partial_sum 0 (block_counts n (map fst all))"
    and all: "all = done @ (d, e) # rest"
    and rng: "list_all (\<lambda>p. in_range (fst p) n) all"
    and len: "length data = length all"
    and inv: "\<And>b. b < n \<Longrightarrow>
        take (count_list (map fst done) (int b)) (drop (offs ! b) data) = block_row done b"
  shows "\<exists>data'. write_entity offs e d (block_counts n (map fst done), data)
          = Inr (block_counts n (map fst (done @ [(d, e)])), data') \<and>
        length data' = length all \<and>
        (\<forall>b<n. take (count_list (map fst (done @ [(d, e)])) (int b)) (drop (offs ! b) data')
            = block_row (done @ [(d, e)]) b)"
proof -
  let ?counts = "block_counts n (map fst all)"
  let ?cur = "block_counts n (map fst done)"
  let ?b0 = "nat d"
  let ?c0 = "count_list (map fst done) d"
  let ?p = "offs ! ?b0 + ?c0"
  from rng all have d: "in_range d n" by simp
  then have d0: "0 \<le> d" and b0: "?b0 < n" by (simp_all add: in_range_def)
  have lo: "length offs = Suc n" by (simp add: offs)
  have cur0: "?cur ! ?b0 = ?c0" using b0 d0 by (simp add: block_counts_nth)
  have step: "offs ! Suc b = offs ! b + count_list (map fst all) (int b)" if "b < n" for b
    using that offsets_Suc [of b ?counts] by (simp add: offs block_counts_nth)
  have mono: "offs ! b \<le> offs ! b'" if "b \<le> b'" "b' \<le> n" for b b'
    using that offsets_mono [of b b' ?counts] by (simp add: offs)
  have "offs ! n = sum_list ?counts"
    using offsets_nth [of n ?counts] by (simp add: offs)
  also have "\<dots> = length all"
    using sum_list_block_counts [of n "map fst all"] rng by (simp add: list_all_iff)
  finally have top: "offs ! n = length all" .
  have part: "count_list (map fst done) (int b) \<le> count_list (map fst all) (int b)" for b
    by (simp add: all)
  have more: "?c0 < count_list (map fst all) d" by (simp add: all)
  have "?p < offs ! Suc ?b0" using step [OF b0] more d0 by simp
  also have "\<dots> \<le> offs ! n" using b0 by (intro mono) simp_all
  finally have p: "?p < length data" by (simp add: top len)
  have w: "write_entity offs e d (?cur, data) = Inr (bump d ?cur, data[?p := e])"
    using d p by (simp add: write_entity_def lo cur0 bump_def in_range_def)
  have cur': "bump d ?cur = block_counts n (map fst (done @ [(d, e)]))"
    using fold_bump_block_counts [of n "[d]" "map fst done"] d by simp
  have rows: "take (count_list (map fst (done @ [(d, e)])) (int b)) (drop (offs ! b) (data[?p := e]))
      = block_row (done @ [(d, e)]) b" if b: "b < n" for b
  proof (cases "int b = d")
    case True
    then have bb: "b = ?b0" by simp
    have "take (Suc ?c0) (drop (offs ! ?b0) (data[?p := e])) = take ?c0 (drop (offs ! ?b0) data) @ [e]"
      using p by (rule take_drop_update_end)
    also have "take ?c0 (drop (offs ! ?b0) data) = block_row done ?b0"
      using inv [OF b0] d0 by simp
    finally show ?thesis using True bb by (simp add: block_row_def)
  next
    case False
    then have ne: "b \<noteq> ?b0" using d0 by auto
    let ?c = "count_list (map fst done) (int b)"
    have seg: "offs ! b + ?c \<le> offs ! Suc b" using step [OF b] part [of b] by simp
    have "?p < offs ! b \<or> offs ! b + ?c \<le> ?p"
    proof (cases "b < ?b0")
      case True
      then have "offs ! Suc b \<le> offs ! ?b0" using b0 by (intro mono) simp_all
      with seg show ?thesis by simp
    next
      case False
      with ne have "Suc ?b0 \<le> b" by simp
      then have "offs ! Suc ?b0 \<le> offs ! b" using b by (intro mono) simp_all
      moreover have "?p < offs ! Suc ?b0" using step [OF b0] more d0 by simp
      ultimately show ?thesis by simp
    qed
    then have "take ?c (drop (offs ! b) (data[?p := e])) = take ?c (drop (offs ! b) data)"
      by (rule take_drop_update_outside)
    with inv [OF b] False show ?thesis by (simp add: block_row_def)
  qed
  from w cur' rows len show ?thesis by simp
qed

lemma fill_loop:
  fixes n :: nat and all :: "(int \<times> int) list"
  assumes offs: "offs = 0 # partial_sum 0 (block_counts n (map fst all))"
    and rng: "list_all (\<lambda>p. in_range (fst p) n) all"
  shows "all = done @ rest \<Longrightarrow> length data = length all \<Longrightarrow>
     (\<And>b. b < n \<Longrightarrow>
        take (count_list (map fst done) (int b)) (drop (offs ! b) data) = block_row done b) \<Longrightarrow>
     \<exists>data'. for_each (\<lambda>p. write_entity offs (snd p) (fst p)) rest
                (block_counts n (map fst done), data)
          = Inr (block_counts n (map fst all), data') \<and>
        length data' = length all \<and>
        (\<forall>b<n. take (count_list (map fst all) (int b)) (drop (offs ! b) data') = block_row all b)"
proof (induction rest arbitrary: "done" data)
  case Nil
  then show ?case by simp
next
  case (Cons p rest)
  obtain d e where p: "p = (d, e)" by (cases p)
  from Cons.prems(1) p have all: "all = done @ (d, e) # rest" by simp
  from write_entity_step [OF offs all rng Cons.prems(2) Cons.prems(3)]
  obtain data1 where w: "write_entity offs e d (block_counts n (map fst done), data)
        = Inr (block_counts n (map fst (done @ [(d, e)])), data1)"
    and l1: "length data1 = length all"
    and r1: "\<And>b. b < n \<Longrightarrow>
        take (count_list (map fst (done @ [(d, e)])) (int b)) (drop (offs ! b) data1)
          = block_row (done @ [(d, e)]) b"
    by blast
  from all have all': "all = (done @ [(d, e)]) @ rest" by simp
  from Cons.IH [OF all' l1 r1] w p show ?case by simp
qed

lemma compute_offsets_ok:
  assumes "int (sum_list counts) < 2 ^ 31"
  shows "compute_offsets counts = Inr (0 # partial_sum 0 counts)"
  using assms unfolding compute_offsets_def Let_def last_offsets by simp

lemma fill_entity_ok:
  assumes "i < length entities" and "entity_reads_ok V (entities ! i)"
  shows "fill_entity V entities offs (map (local_index_of V) entities) (map (cell_of V) entities) i st
       = for_each (\<lambda>p. write_entity offs (snd p) (fst p))
           (map (\<lambda>block. (block, entities ! i)) (blocks_of V (entities ! i))) st"
proof -
  let ?e = "entities ! i"
  let ?cb = "dofmap_cell_dofs V ! nat (cell_of V ?e)"
  from assms(2) have c: "in_range (cell_of V ?e) (length (dofmap_cell_dofs V))"
    and l: "local_index_of V ?e < length (entity_closure_dofs V)"
    and cl: "list_all (\<lambda>closure_block. in_range closure_block (length ?cb)) (closure_blocks_of V ?e)"
    by (simp_all add: entity_reads_ok_def)
  have rd1: "read_at (dofmap_cell_dofs V) (map (cell_of V) entities ! i) = Inr ?cb"
    using c assms(1) by (simp add: read_at_def)
  have rd2: "read_at (entity_closure_dofs V) (int (map (local_index_of V) entities ! i))
      = Inr (closure_blocks_of V ?e)"
    using l assms(1) by (simp add: read_at_def in_range_def closure_blocks_of_def)
  have "for_each (fill_block offs ?e ?cb) (closure_blocks_of V ?e) st
      = for_each (write_entity offs ?e) (map (\<lambda>c. ?cb ! nat c) (closure_blocks_of V ?e)) st"
    unfolding fill_block_def by (rule for_each_checked_read [OF cl])
  also have "map (\<lambda>c. ?cb ! nat c) (closure_blocks_of V ?e) = blocks_of V ?e"
    by (simp add: blocks_of_def)
  also have "for_each (write_entity offs ?e) (blocks_of V ?e) st
      = for_each (\<lambda>p. write_entity offs (snd p) (fst p))
          (map (\<lambda>block. (block, ?e)) (blocks_of V ?e)) st"
    by (simp add: for_each_map)
  finally show ?thesis
    by (simp add: fill_entity_def rd1 rd2)
qed

lemma second_pass_flat:
  assumes "list_all (entity_reads_ok V) entities"
  shows "for_each (fill_entity V entities offs (map (local_index_of V) entities) (map (cell_of V) entities))
           [0..<length entities] st
       = for_each (\<lambda>p. write_entity offs (snd p) (fst p)) (incidences V entities) st"
proof -
  let ?W = "\<lambda>p. write_entity offs (snd p) (fst p)"
  let ?F = "\<lambda>entity. for_each ?W (map (\<lambda>block. (block, entity)) (blocks_of V entity))"
  have "for_each (fill_entity V entities offs (map (local_index_of V) entities) (map (cell_of V) entities))
           [0..<length entities] st
      = for_each (\<lambda>i. ?F (entities ! i)) [0..<length entities] st"
  proof (rule for_each_cong)
    fix i s assume "i \<in> set [0..<length entities]"
    then have i: "i < length entities" by simp
    with assms have "entity_reads_ok V (entities ! i)" by (simp add: list_all_iff)
    from fill_entity_ok [OF i this]
    show "fill_entity V entities offs (map (local_index_of V) entities) (map (cell_of V) entities) i s
        = ?F (entities ! i) s" .
  qed
  also have "\<dots> = for_each ?F entities st" by (rule for_each_nth)
  also have "\<dots> = for_each (\<lambda>xs. for_each ?W xs)
      (map (\<lambda>entity. map (\<lambda>block. (block, entity)) (blocks_of V entity)) entities) st"
    by (simp add: for_each_map)
  also have "\<dots> = for_each ?W (incidences V entities) st"
    by (simp add: for_each_concat incidences_def)
  finally show ?thesis .
qed

lemma incidences_in_range:
  assumes "list_all (entity_reads_ok V) entities"
  shows "list_all (\<lambda>p. in_range (fst p) (num_dofs V)) (incidences V entities)"
  using assms by (auto simp: list_all_iff incidences_def entity_reads_ok_def)

lemma create_block_to_facet_map_ok:
  assumes "one_incident_cell V entities" and "reads_ok V entities"
  shows "\<exists>data. create_block_to_facet_map V entities
        = Inr \<lparr>array = data,
               offsets = 0 # partial_sum 0 (block_counts (num_dofs V) (map fst (incidences V entities)))\<rparr> \<and>
      length data = length (incidences V entities) \<and>
      (\<forall>b<num_dofs V.
         links \<lparr>array = data,
                offsets = 0 # partial_sum 0 (block_counts (num_dofs V) (map fst (incidences V entities)))\<rparr> b
           = block_row (incidences V entities) b)"
proof -
  let ?n = "num_dofs V"
  let ?all = "incidences V entities"
  let ?counts = "block_counts ?n (map fst ?all)"
  let ?offs = "0 # partial_sum 0 ?counts"
  from assms(2) have ok: "list_all (entity_reads_ok V) entities"
    and small: "int (length ?all) < 2 ^ 31"
    by (simp_all add: reads_ok_def)
  have rng: "list_all (\<lambda>p. in_range (fst p) ?n) ?all" by (rule incidences_in_range [OF ok])
  then have total: "sum_list ?counts = length ?all"
    using sum_list_block_counts [of ?n "map fst ?all"] by (simp add: list_all_iff)
  have offs: "compute_offsets ?counts = Inr ?offs"
    using small by (intro compute_offsets_ok) (simp add: total)
  have lst: "last ?offs = length ?all" by (simp only: last_offsets total)
  have zero: "replicate ?n 0 = block_counts ?n (map fst [])"
    by (simp add: block_counts_def map_replicate_const)
  have "\<exists>data'. for_each (\<lambda>p. write_entity ?offs (snd p) (fst p)) ?all
            (block_counts ?n (map fst []), replicate (length ?all) 0)
        = Inr (block_counts ?n (map fst ?all), data') \<and>
      length data' = length ?all \<and>
      (\<forall>b<?n. take (count_list (map fst ?all) (int b)) (drop (?offs ! b) data') = block_row ?all b)"
    using fill_loop [where n = ?n and all = ?all and offs = ?offs and ?done = "[]"
        and rest = ?all and data = "replicate (length ?all) 0", OF refl rng]
    by (simp add: block_row_def)
  then obtain data where
    fill: "for_each (\<lambda>p. write_entity ?offs (snd p) (fst p)) ?all
            (replicate ?n 0, replicate (length ?all) 0) = Inr (?counts, data)"
    and len: "length data = length ?all"
    and rows: "\<And>b. b < ?n \<Longrightarrow>
        take (count_list (map fst ?all) (int b)) (drop (?offs ! b) data) = block_row ?all b"
    unfolding zero [symmetric] by blast
  have res: "create_block_to_facet_map V entities = Inr \<lparr>array = data, offsets = ?offs\<rparr>"
    unfolding create_block_to_facet_map_def
    by (simp add: first_pass_ok [OF assms] offs second_pass_flat [OF ok] lst fill
        del: last.simps)
  have lk: "links \<lparr>array = data, offsets = ?offs\<rparr> b = block_row ?all b" if "b < ?n" for b
  proof -
    from that have "?offs ! Suc b = ?offs ! b + count_list (map fst ?all) (int b)"
      using offsets_Suc [of b ?counts] by (simp add: block_counts_nth)
    then have "?offs ! Suc b - ?offs ! b = count_list (map fst ?all) (int b)" by simp
    with rows [OF that] show ?thesis by (simp add: links_def del: nth_Cons_Suc)
  qed
  from res len lk show ?thesis by blast
qed

lemma length_incidences:
  "length (incidences V entities)
     = sum_list (map (\<lambda>entity. length (closure_blocks_of V entity)) entities)"
  by (simp add: incidences_def length_concat comp_def blocks_of_def)

text \<open>
  Claim C5. For an entity list in which every entity has exactly one incident cell
  (and on a mesh and dofmap that keep every read in range), the two-pass construction
  returns an adjacency list with one node per dof block, whose data length is the sum
  over the input entities of the number of closure dof blocks of the entity, and in
  which the row of each block \<open>b\<close> holds each entity exactly as many times as the pair
  (\<open>b\<close>, entity) comes up when the incidences are enumerated directly.
\<close>

theorem block_to_facet_map_counts:
  assumes "one_incident_cell V entities" and "reads_ok V entities"
  shows "\<exists>A. create_block_to_facet_map V entities = Inr A \<and>
     num_nodes A = num_dofs V \<and>
     length (array A) = sum_list (map (\<lambda>entity. length (closure_blocks_of V entity)) entities) \<and>
     (\<forall>b<num_dofs V. \<forall>entity.
        count_list (links A b) entity = count_list (incidences V entities) (int b, entity))"
proof -
  from create_block_to_facet_map_ok [OF assms] obtain data where
    res: "create_block_to_facet_map V entities
        = Inr \<lparr>array = data,
               offsets = 0 # partial_sum 0 (block_counts (num_dofs V) (map fst (incidences V entities)))\<rparr>"
    and len: "length data = length (incidences V entities)"
    and rows: "\<And>b. b < num_dofs V \<Longrightarrow>
         links \<lparr>array = data,
                offsets = 0 # partial_sum 0 (block_counts (num_dofs V) (map fst (incidences V entities)))\<rparr> b
           = block_row (incidences V entities) b"
    by blast
  let ?A = "\<lparr>array = data,
      offsets = 0 # partial_sum 0 (block_counts (num_dofs V) (map fst (incidences V entities)))\<rparr>"
  have n: "num_nodes ?A = num_dofs V" by (simp add: num_nodes_def)
  have l: "length (array ?A) = sum_list (map (\<lambda>entity. length (closure_blocks_of V entity)) entities)"
    by (simp add: len length_incidences)
  have c: "count_list (links ?A b) entity = count_list (incidences V entities) (int b, entity)"
    if "b < num_dofs V" for b entity
    by (simp only: rows [OF that] block_row_def count_list_filter_snd)
  from res n l c show ?thesis by blast
qed

lemma count_entity_asserts:
  assumes "in_range (entities ! k) (num_nodes (e_to_c V))"
    and "length (links (e_to_c V) (nat (entities ! k))) \<noteq> 1"
  shows "count_entity V entities k st = Inl Assert_one_incident_cell"
  using assms by (cases st) (simp add: count_entity_def locate_entity_def links_at_def)

lemma first_pass_asserts:
  assumes "k < length entities"
    and "one_incident_cell V (take k entities)" and "reads_ok V (take k entities)"
    and "in_range (entities ! k) (num_nodes (e_to_c V))"
    and "length (links (e_to_c V) (nat (entities ! k))) \<noteq> 1"
  shows "first_pass V entities = Inl Assert_one_incident_cell"
proof -
  from assms(1) have "[0..<length entities] = [0..<k] @ k # [Suc k..<length entities]"
    by (metis le_add1 less_imp_add_positive upt_add_eq_append upt_conv_Cons zero_le
        less_or_eq_imp_le)
  then show ?thesis
    using assms(1) first_pass_prefix [OF _ assms(2,3)] count_entity_asserts [OF assms(4,5)]
    by (simp add: first_pass_def for_each_append)
qed

lemma locate_entity_assert_one:
  assumes "locate_entity V entity = Inl Assert_one_incident_cell"
  shows "in_range entity (num_nodes (e_to_c V)) \<and> length (links (e_to_c V) (nat entity)) \<noteq> 1"
  using assms
  by (auto simp: locate_entity_def links_at_def split: if_splits)

lemma count_block_failure:
  assumes "count_block cb c counts = Inl e"
  shows "e = Out_of_range \<or> e = Signed_overflow"
  using assms
  by (auto simp: count_block_def read_at_def increment_def split: if_splits sum.splits)

lemma count_entity_assert_one:
  assumes "count_entity V entities i st = Inl Assert_one_incident_cell"
  shows "in_range (entities ! i) (num_nodes (e_to_c V)) \<and>
         length (links (e_to_c V) (nat (entities ! i))) \<noteq> 1"
proof (cases "locate_entity V (entities ! i)")
  case (Inl e)
  with assms have "e = Assert_one_incident_cell"
    by (cases st) (simp add: count_entity_def)
  with Inl have "locate_entity V (entities ! i) = Inl Assert_one_incident_cell" by simp
  then show ?thesis by (rule locate_entity_assert_one)
next
  case (Inr r)
  obtain counts lis cells where st: "st = (counts, lis, cells)" by (cases st)
  obtain cell le where r: "r = (cell, le)" by (cases r)
  from assms Inr st r have False
    by (auto simp: count_entity_def read_at_def split: if_splits sum.splits
        dest!: for_each_failure count_block_failure)
  then show ?thesis ..
qed

lemma fill_entity_failure:
  assumes "fill_entity V entities offs lis cells i st = Inl e"
  shows "e = Out_of_range"
proof -
  have w: "write_entity offs entity dof s = Inl e' \<Longrightarrow> e' = Out_of_range" for entity dof s e'
    by (cases s) (auto simp: write_entity_def split: if_splits)
  have b: "fill_block offs entity cb c s = Inl e' \<Longrightarrow> e' = Out_of_range" for entity cb c s e'
    by (auto simp: fill_block_def read_at_def split: if_splits sum.splits dest: w)
  from assms show ?thesis
    by (auto simp: fill_entity_def read_at_def split: if_splits sum.splits
        dest!: for_each_failure dest: b)
qed

lemma create_block_to_facet_map_assert_one:
  assumes "create_block_to_facet_map V entities = Inl Assert_one_incident_cell"
  shows "\<exists>i<length entities. in_range (entities ! i) (num_nodes (e_to_c V)) \<and>
           length (links (e_to_c V) (nat (entities ! i))) \<noteq> 1"
proof (cases "first_pass V entities")
  case (Inl e)
  with assms have "first_pass V entities = Inl Assert_one_incident_cell"
    by (simp add: create_block_to_facet_map_def)
  from for_each_failure [OF this [unfolded first_pass_def]]
  obtain i st where "i < length entities"
    "count_entity V entities i st = Inl Assert_one_incident_cell"
    by auto
  with count_entity_assert_one show ?thesis by blast
next
  case (Inr r)
  obtain counts lis cells where r: "r = (counts, lis, cells)" by (cases r)
  from assms Inr r have False
    by (auto simp: create_block_to_facet_map_def compute_offsets_def Let_def
        split: sum.splits if_splits prod.splits
        dest!: for_each_failure fill_entity_failure)
  then show ?thesis ..
qed

lemma count_entity_cell:
  assumes "count_entity V entities k (counts1, lis1, cells1) = Inr (counts, lis, cells)"
  shows "\<exists>cell. cells = cells1[k := cell] \<and> links (e_to_c V) (nat (entities ! k)) = [cell]"
proof -
  from assms obtain cell le where loc: "locate_entity V (entities ! k) = Inr (cell, le)"
    and upd: "cells = cells1[k := cell]"
    by (auto simp: count_entity_def split: sum.splits prod.splits)
  from loc have "length (links (e_to_c V) (nat (entities ! k))) = 1"
    and "cell = links (e_to_c V) (nat (entities ! k)) ! 0"
    by (auto simp: locate_entity_def links_at_def split: if_splits sum.splits)
  then have "links (e_to_c V) (nat (entities ! k)) = [cell]"
    by (cases "links (e_to_c V) (nat (entities ! k))") auto
  with upd show ?thesis by blast
qed

lemma first_pass_cells_prefix:
  assumes "k \<le> length entities" and "length cells0 = length entities"
    and "for_each (count_entity V entities) [0..<k] (counts0, lis0, cells0) = Inr (counts, lis, cells)"
  shows "length cells = length entities \<and>
         (\<forall>i<k. links (e_to_c V) (nat (entities ! i)) = [cells ! i])"
  using assms
proof (induction k arbitrary: counts lis cells)
  case 0
  then show ?case by simp
next
  case (Suc k)
  from Suc.prems(3) obtain counts1 lis1 cells1 where
    pre: "for_each (count_entity V entities) [0..<k] (counts0, lis0, cells0) = Inr (counts1, lis1, cells1)"
    and step: "count_entity V entities k (counts1, lis1, cells1) = Inr (counts, lis, cells)"
    by (auto simp: for_each_append split: sum.splits)
  from Suc.IH [OF _ Suc.prems(2) pre] Suc.prems(1)
  have l1: "length cells1 = length entities"
    and c1: "\<And>i. i < k \<Longrightarrow> links (e_to_c V) (nat (entities ! i)) = [cells1 ! i]"
    by simp_all
  from count_entity_cell [OF step] obtain cell where
    upd: "cells = cells1[k := cell]" and cell: "links (e_to_c V) (nat (entities ! k)) = [cell]"
    by blast
  have "links (e_to_c V) (nat (entities ! i)) = [cells ! i]" if "i < Suc k" for i
  proof (cases "i = k")
    case True
    with upd cell l1 Suc.prems(1) show ?thesis by simp
  next
    case False
    with that have "i < k" by simp
    with c1 upd False show ?thesis by simp
  qed
  with upd l1 show ?case by simp
qed

lemma first_pass_cells:
  assumes "first_pass V entities = Inr (counts, lis, cells)"
  shows "length cells = length entities \<and>
         (\<forall>i<length entities. links (e_to_c V) (nat (entities ! i)) = [cells ! i])"
  using first_pass_cells_prefix [OF _ _ assms [unfolded first_pass_def]] by simp

text \<open>
  Claim C8. If the entity at position \<open>k\<close> of the list has another number of incident
  cells than one, the body of the first loop fails for it with the assertion, whatever
  the state, and when the entities before it are in order the whole construction ends
  in that assertion failure (an abort, not an exception). If every entity of the list
  has exactly one incident cell, the assertion fails for no entity and the
  construction does not end in it; whenever the first pass returns, it has stored one
  cell per entity, the only incident cell of that entity; and on a consistent mesh it
  does return.
\<close>

theorem one_incident_cell_assertion:
  "(k < length entities \<and> one_incident_cell V (take k entities) \<and> reads_ok V (take k entities) \<and>
    in_range (entities ! k) (num_nodes (e_to_c V)) \<and>
    length (links (e_to_c V) (nat (entities ! k))) \<noteq> 1
    \<longrightarrow> (\<forall>st. count_entity V entities k st = Inl Assert_one_incident_cell) \<and>
        create_block_to_facet_map V entities = Inl Assert_one_incident_cell) \<and>
   (one_incident_cell V entities
    \<longrightarrow> (\<forall>i<length entities. \<forall>st. count_entity V entities i st \<noteq> Inl Assert_one_incident_cell) \<and>
        create_block_to_facet_map V entities \<noteq> Inl Assert_one_incident_cell \<and>
        (\<forall>counts lis cells. first_pass V entities = Inr (counts, lis, cells) \<longrightarrow>
           length cells = length entities \<and>
           (\<forall>i<length entities. links (e_to_c V) (nat (entities ! i)) = [cells ! i]))) \<and>
   (one_incident_cell V entities \<and> reads_ok V entities
    \<longrightarrow> (\<exists>counts lis. first_pass V entities = Inr (counts, lis, map (cell_of V) entities)))"
proof (intro conjI impI)
  assume a: "k < length entities \<and> one_incident_cell V (take k entities) \<and>
    reads_ok V (take k entities) \<and> in_range (entities ! k) (num_nodes (e_to_c V)) \<and>
    length (links (e_to_c V) (nat (entities ! k))) \<noteq> 1"
  then show "\<forall>st. count_entity V entities k st = Inl Assert_one_incident_cell"
    by (simp add: count_entity_asserts)
  from a have "first_pass V entities = Inl Assert_one_incident_cell"
    using first_pass_asserts [of k entities V] by blast
  then show "create_block_to_facet_map V entities = Inl Assert_one_incident_cell"
    by (simp add: create_block_to_facet_map_def)
next
  assume one: "one_incident_cell V entities"
  then have ok: "\<And>i. i < length entities \<Longrightarrow>
      \<not> (in_range (entities ! i) (num_nodes (e_to_c V)) \<and>
         length (links (e_to_c V) (nat (entities ! i))) \<noteq> 1)"
    by (simp add: one_incident_cell_def list_all_length)
  show "\<forall>i<length entities. \<forall>st. count_entity V entities i st \<noteq> Inl Assert_one_incident_cell"
    using ok count_entity_assert_one by blast
  show "create_block_to_facet_map V entities \<noteq> Inl Assert_one_incident_cell"
    using ok create_block_to_facet_map_assert_one by blast
  show "\<forall>counts lis cells. first_pass V entities = Inr (counts, lis, cells) \<longrightarrow>
           length cells = length entities \<and>
           (\<forall>i<length entities. links (e_to_c V) (nat (entities ! i)) = [cells ! i])"
    using first_pass_cells by blast
next
  assume "one_incident_cell V entities \<and> reads_ok V entities"
  then show "\<exists>counts lis. first_pass V entities = Inr (counts, lis, map (cell_of V) entities)"
    by (simp add: first_pass_ok)
qed

lemma two_triangles_boundary_ok:
  "one_incident_cell two_triangles [0, 1, 3, 4]" "reads_ok two_triangles [0, 1, 3, 4]"
  by code_simp+

lemma two_triangles_boundary_map:
  "create_block_to_facet_map two_triangles [0, 1, 3, 4]
     = Inr \<lparr>array = [1, 0, 3, 4, 0, 1, 4, 3], offsets = [0, 1, 4, 7, 8]\<rparr>"
  by code_simp

theorem block_to_facet_map_counts_witness:
  "one_incident_cell two_triangles [0, 1, 3, 4] \<and> reads_ok two_triangles [0, 1, 3, 4] \<and>
   create_block_to_facet_map two_triangles [0, 1, 3, 4]
     = Inr \<lparr>array = [1, 0, 3, 4, 0, 1, 4, 3], offsets = [0, 1, 4, 7, 8]\<rparr> \<and>
   sum_list (map (\<lambda>entity. length (closure_blocks_of two_triangles entity)) [0, 1, 3, 4]) = 8 \<and>
   count_list (incidences two_triangles [0, 1, 3, 4]) (1, 4) = 1 \<and>
   count_list (links \<lparr>array = [1, 0, 3, 4, 0, 1, 4, 3], offsets = [0, 1, 4, 7, 8]\<rparr> 1) 4 = 1"
proof -
  from block_to_facet_map_counts [OF two_triangles_boundary_ok]
  obtain A where A: "create_block_to_facet_map two_triangles [0, 1, 3, 4] = Inr A"
    and len: "length (array A)
        = sum_list (map (\<lambda>entity. length (closure_blocks_of two_triangles entity)) [0, 1, 3, 4])"
    and cnt: "\<And>b entity. b < num_dofs two_triangles \<Longrightarrow>
        count_list (links A b) entity = count_list (incidences two_triangles [0, 1, 3, 4]) (int b, entity)"
    by blast
  from A have A': "A = \<lparr>array = [1, 0, 3, 4, 0, 1, 4, 3], offsets = [0, 1, 4, 7, 8]\<rparr>"
    by (simp add: two_triangles_boundary_map)
  have n: "1 < num_dofs two_triangles" by code_simp
  have l8: "length (array A) = 8" by (simp add: A')
  have c1: "count_list (links A 1) 4 = 1" unfolding A' by code_simp
  from cnt [OF n, of 4] c1 have "count_list (incidences two_triangles [0, 1, 3, 4]) (1, 4) = 1"
    by simp
  with two_triangles_boundary_ok two_triangles_boundary_map len l8 c1 A' show ?thesis
    by simp
qed

theorem one_incident_cell_assertion_witness:
  "one_incident_cell two_triangles (take 1 [0, 2]) \<and> reads_ok two_triangles (take 1 [0, 2]) \<and>
   length (links (e_to_c two_triangles) (nat ([0, 2] ! 1))) = 2 \<and>
   create_block_to_facet_map two_triangles [0, 2] = Inl Assert_one_incident_cell \<and>
   one_incident_cell two_triangles [0, 1, 3, 4] \<and> reads_ok two_triangles [0, 1, 3, 4] \<and>
   create_block_to_facet_map two_triangles [0, 1, 3, 4] \<noteq> Inl Assert_one_incident_cell \<and>
   (\<exists>counts lis. first_pass two_triangles [0, 1, 3, 4] = Inr (counts, lis, [0, 0, 1, 1]))"
proof -
  have h1: "one_incident_cell two_triangles (take 1 [0, 2])" by code_simp
  have h2: "reads_ok two_triangles (take 1 [0, 2])" by code_simp
  have h3: "in_range ([0, 2] ! 1) (num_nodes (e_to_c two_triangles))" by code_simp
  have h4: "length (links (e_to_c two_triangles) (nat ([0, 2] ! 1))) = 2" by code_simp
  have c: "map (cell_of two_triangles) [0, 1, 3, 4] = [0, 0, 1, 1]" by code_simp
  from one_incident_cell_assertion [of 1 "[0, 2]" two_triangles] h1 h2 h3 h4
  have a: "create_block_to_facet_map two_triangles [0, 2] = Inl Assert_one_incident_cell"
    by simp
  from one_incident_cell_assertion [of 0 "[0, 1, 3, 4]" two_triangles] two_triangles_boundary_ok
  have b: "create_block_to_facet_map two_triangles [0, 1, 3, 4] \<noteq> Inl Assert_one_incident_cell"
    and d: "\<exists>counts lis. first_pass two_triangles [0, 1, 3, 4]
        = Inr (counts, lis, map (cell_of two_triangles) [0, 1, 3, 4])"
    by simp_all
  from h1 h2 h4 a two_triangles_boundary_ok b d show ?thesis
    unfolding c by simp
qed

section \<open>Properties of the owner-to-ghost communicator\<close>

lemma set_insert_eq: "set_insert x s = insort_insert x s"
  by (simp add: set_insert_def insort_insert_key_def)

lemma set_set_insert [simp]: "set (set_insert x s) = insert x (set s)"
  by (auto simp: set_insert_def set_insort_key)

lemma sorted_set_insert: "sorted s \<Longrightarrow> sorted (set_insert x s)"
  by (simp add: set_insert_def sorted_insort)

lemma distinct_set_insert: "distinct s \<Longrightarrow> distinct (set_insert x s)"
  by (simp add: set_insert_def distinct_insort)

lemma fold_set_insert:
  assumes "sorted s" and "distinct s"
  shows "sorted (fold set_insert xs s) \<and> distinct (fold set_insert xs s) \<and>
         set (fold set_insert xs s) = set s \<union> set xs"
  using assms
  by (induction xs arbitrary: s) (auto simp: sorted_set_insert distinct_set_insert)

lemma ordered_set_unique:
  assumes "sorted s" and "distinct s" and "set s = A"
  shows "s = sorted_list_of_set A"
proof -
  from assms(3) have "finite A" by auto
  then have "sorted (sorted_list_of_set A)" "distinct (sorted_list_of_set A)"
    "set (sorted_list_of_set A) = A"
    by simp_all
  with assms show ?thesis by (intro sorted_distinct_set_unique) simp_all
qed

lemma dest_loop:
  assumes "list_all (\<lambda>block. in_range block (num_nodes shared)) blocks"
    and "sorted s" and "distinct s"
  shows "\<exists>s'. for_each (insert_dest_ranks shared) blocks s = Inr s' \<and> sorted s' \<and> distinct s' \<and>
           set s' = set s \<union> (\<Union>block\<in>set blocks. set (links shared (nat block)))"
  using assms
proof (induction blocks arbitrary: s)
  case Nil
  then show ?case by simp
next
  case (Cons b blocks)
  let ?s1 = "fold set_insert (links shared (nat b)) s"
  from Cons.prems have step: "insert_dest_ranks shared b s = Inr ?s1"
    by (simp add: insert_dest_ranks_def links_at_def)
  from fold_set_insert [OF Cons.prems(2,3), of "links shared (nat b)"]
  have s1: "sorted ?s1" "distinct ?s1" "set ?s1 = set s \<union> set (links shared (nat b))"
    by simp_all
  from Cons.IH [OF _ s1(1,2)] Cons.prems(1) obtain s' where
    "for_each (insert_dest_ranks shared) blocks ?s1 = Inr s'" "sorted s'" "distinct s'"
    "set s' = set ?s1 \<union> (\<Union>block\<in>set blocks. set (links shared (nat block)))"
    by auto
  with step s1(3) show ?case by auto
qed

lemma owner_loop:
  assumes "list_all (\<lambda>block. in_range (block - int n) (length ghost_owners)) blocks"
    and "sorted s" and "distinct s"
  shows "\<exists>s'. for_each (insert_owner ghost_owners n) blocks s = Inr s' \<and> sorted s' \<and> distinct s' \<and>
           set s' = set s \<union> (\<lambda>block. ghost_owners ! nat (block - int n)) ` set blocks"
  using assms
proof (induction blocks arbitrary: s)
  case Nil
  then show ?case by simp
next
  case (Cons b blocks)
  let ?s1 = "set_insert (ghost_owners ! nat (b - int n)) s"
  from Cons.prems have step: "insert_owner ghost_owners n b s = Inr ?s1"
    by (simp add: insert_owner_def read_at_def)
  have s1: "sorted ?s1" "distinct ?s1"
    using Cons.prems(2,3) by (simp_all add: sorted_set_insert distinct_set_insert)
  from Cons.IH [OF _ s1] Cons.prems(1) obtain s' where
    "for_each (insert_owner ghost_owners n) blocks ?s1 = Inr s'" "sorted s'" "distinct s'"
    "set s' = set ?s1 \<union> (\<lambda>block. ghost_owners ! nat (block - int n)) ` set blocks"
    by auto
  with step show ?case by auto
qed

text \<open>
  Claim C6. When the index map knows every block of the two lists, the source edges
  handed to the communicator are exactly the owning ranks of the blocks of
  \<^verbatim>\<open>ghost_blocks\<close>, and the destination edges exactly the ranks that hold a ghost copy of
  some block of \<^verbatim>\<open>local_blocks\<close>, each as an ordered set: in increasing order and
  without repetition.
\<close>

theorem owner_to_ghost_edges:
  assumes "blocks_known local_blocks ghost_blocks imap"
  shows "\<exists>g. create_owner_to_ghost_comm local_blocks ghost_blocks imap = Inr g \<and>
     sources g = sorted_list_of_set (owner_of imap ` set ghost_blocks) \<and>
     destinations g = sorted_list_of_set (\<Union>block\<in>set local_blocks. set (dest_ranks imap block)) \<and>
     sorted (sources g) \<and> distinct (sources g) \<and>
     sorted (destinations g) \<and> distinct (destinations g)"
proof -
  from assms have l: "list_all (\<lambda>block. in_range block (num_nodes (index_to_dest_ranks imap))) local_blocks"
    and g: "list_all (\<lambda>block. in_range (block - int (size_local imap)) (length (owners imap))) ghost_blocks"
    by (simp_all add: blocks_known_def)
  from dest_loop [OF l, of "[]"] obtain dst where
    dst: "for_each (insert_dest_ranks (index_to_dest_ranks imap)) local_blocks [] = Inr dst"
    "sorted dst" "distinct dst"
    "set dst = (\<Union>block\<in>set local_blocks. set (dest_ranks imap block))"
    by (auto simp: dest_ranks_def)
  from owner_loop [OF g, of "[]"] obtain src where
    src: "for_each (insert_owner (owners imap) (size_local imap)) ghost_blocks [] = Inr src"
    "sorted src" "distinct src"
    "set src = owner_of imap ` set ghost_blocks"
    by (auto simp: owner_of_def)
  have "create_owner_to_ghost_comm local_blocks ghost_blocks imap
      = Inr \<lparr>sources = src, source_weights = replicate (length src) 1,
             destinations = dst, dest_weights = replicate (length dst) 1\<rparr>"
    by (simp add: create_owner_to_ghost_comm_def dst(1) src(1))
  moreover have "src = sorted_list_of_set (owner_of imap ` set ghost_blocks)"
    using src by (intro ordered_set_unique)
  moreover have "dst = sorted_list_of_set (\<Union>block\<in>set local_blocks. set (dest_ranks imap block))"
    using dst by (intro ordered_set_unique)
  ultimately show ?thesis using src(2,3) dst(2,3) by simp
qed

lemma small_known: "blocks_known [1, 2, 3, 2] [6, 4, 5, 6] small_index_map"
  by code_simp

lemma small_comm:
  "create_owner_to_ghost_comm [1, 2, 3, 2] [6, 4, 5, 6] small_index_map
     = Inr \<lparr>sources = [0, 3], source_weights = [1, 1],
            destinations = [2, 3], dest_weights = [1, 1]\<rparr>"
  by code_simp

theorem owner_to_ghost_edges_witness:
  "blocks_known [1, 2, 3, 2] [6, 4, 5, 6] small_index_map \<and>
   create_owner_to_ghost_comm [1, 2, 3, 2] [6, 4, 5, 6] small_index_map
     = Inr \<lparr>sources = [0, 3], source_weights = [1, 1],
            destinations = [2, 3], dest_weights = [1, 1]\<rparr> \<and>
   sorted_list_of_set (owner_of small_index_map ` set [6, 4, 5, 6]) = [0, 3] \<and>
   sorted_list_of_set (\<Union>block\<in>set [1, 2, 3, 2]. set (dest_ranks small_index_map block)) = [2, 3]"
  using owner_to_ghost_edges [OF small_known] small_known
  by (auto simp: small_comm)

section \<open>Properties of the basis functions\<close>

lemma get_basis_functions_asserts:
  "get_basis_functions push_forward None x index = Inl Assert_precondition"
  "space_mesh space = None \<Longrightarrow>
     get_basis_functions push_forward (Some space) x index = Inl Assert_precondition"
  "space_mesh space = Some mesh \<Longrightarrow> length x \<noteq> geometry_dim mesh \<Longrightarrow>
     get_basis_functions push_forward (Some space) x index = Inl Assert_precondition"
  "space_mesh space = Some mesh \<Longrightarrow> space_element space = None \<Longrightarrow>
     get_basis_functions push_forward (Some space) x index = Inl Assert_precondition"
  by (simp_all add: get_basis_functions_def)

lemma get_basis_functions_cell:
  assumes "space_mesh space = Some mesh" and "length x = geometry_dim mesh"
    and "space_element space = Some element"
    and "tabulate_shape element = (shape0, shape1, shape2, shape3)" and "0 \<le> index"
  shows "get_basis_functions push_forward (Some space) x index =
     (case push_forward space x index of
        Inl e \<Rightarrow> Inl e
      | Inr basis_values \<Rightarrow>
          Inr (expand_basis (block_size element) shape2 shape3 basis_values
                 (zeros (shape2 * block_size element) (shape3 * block_size element))))"
  using assms by (simp add: get_basis_functions_def Let_def)

text \<open>
  Claim C9. For a function space with a mesh and an element, a point with as many
  coordinates as the geometry has dimensions, and a negative cell index,
  \<^verbatim>\<open>get_basis_functions\<close> returns the array of zeros with
  \<^verbatim>\<open>basis_shape[2] * element_bs\<close> rows and \<^verbatim>\<open>basis_shape[3] * element_bs\<close> columns, whatever
  the evaluation of geometry and basis for a cell would give or however it would fail:
  it is not consulted.
\<close>

theorem negative_index_gives_zeros:
  assumes "V = Some space" and "space_mesh space = Some mesh"
    and "length x = geometry_dim mesh" and "space_element space = Some element"
    and "tabulate_shape element = (shape0, shape1, shape2, shape3)" and "index < 0"
  shows "get_basis_functions push_forward V x index
           = Inr (zeros (shape2 * block_size element) (shape3 * block_size element)) \<and>
         length (zeros (shape2 * block_size element) (shape3 * block_size element))
           = shape2 * block_size element \<and>
         (\<forall>row\<in>set (zeros (shape2 * block_size element) (shape3 * block_size element)).
            length row = shape3 * block_size element \<and> (\<forall>v\<in>set row. v = 0))"
  using assms by (simp add: get_basis_functions_def zeros_def Let_def)

theorem negative_index_gives_zeros_witness:
  "length [0, 0 :: real] = geometry_dim \<lparr>geometry_dim = 2\<rparr> \<and> (- 1 :: int) < 0 \<and>
   failing_push_forward plane_space [0, 0] (- 1) = Inl Out_of_range \<and>
   get_basis_functions failing_push_forward (Some plane_space) [0, 0] (- 1)
     = Inr [[0, 0], [0, 0], [0, 0], [0, 0], [0, 0], [0, 0]]"
proof -
  have z: "zeros 6 2 = [[0, 0], [0, 0], [0, 0], [0, 0], [0, 0], [0, 0]]"
    by code_simp
  from negative_index_gives_zeros [of "Some plane_space" plane_space "\<lparr>geometry_dim = 2\<rparr>"
      "[0, 0]" "\<lparr>block_size = 2, tabulate_shape = (1, 1, 3, 1)\<rparr>" 1 1 3 1 "- 1"
      failing_push_forward]
  have "get_basis_functions failing_push_forward (Some plane_space) [0, 0] (- 1)
      = Inr (zeros 6 2)"
    by (simp add: plane_space_def)
  then show ?thesis by (simp add: z failing_push_forward_def)
qed

section \<open>Properties of the colliding cells\<close>

lemma min_element_prefix:
  fixes xs :: "real list"
  assumes "k < length xs"
  shows "fold (\<lambda>i smallest. if xs ! i < xs ! smallest then i else smallest) [1..<Suc k] 0 \<le> k \<and>
         (\<forall>j\<le>k. xs ! fold (\<lambda>i smallest. if xs ! i < xs ! smallest then i else smallest) [1..<Suc k] 0
                    \<le> xs ! j)"
  using assms
proof (induction k)
  case 0
  then show ?case by simp
next
  case (Suc k)
  let ?f = "\<lambda>i smallest. if xs ! i < xs ! smallest then i else smallest"
  let ?s = "fold ?f [1..<Suc k] 0"
  from Suc have IH: "?s \<le> k" "\<And>j. j \<le> k \<Longrightarrow> xs ! ?s \<le> xs ! j" by simp_all
  have unf: "fold ?f [1..<Suc (Suc k)] 0 = ?f (Suc k) ?s" by simp
  show ?case
  proof (cases "xs ! Suc k < xs ! ?s")
    case True
    then have "fold ?f [1..<Suc (Suc k)] 0 = Suc k" unfolding unf by simp
    moreover have "xs ! Suc k \<le> xs ! j" if "j \<le> Suc k" for j
      using that True IH(2) [of j] by (cases "j = Suc k") auto
    ultimately show ?thesis by simp
  next
    case False
    then have "fold ?f [1..<Suc (Suc k)] 0 = ?s" unfolding unf by simp
    moreover have "xs ! ?s \<le> xs ! j" if "j \<le> Suc k" for j
      using that False IH(2) [of j] by (cases "j = Suc k") auto
    ultimately show ?thesis using IH(1) by simp
  qed
qed

lemma min_element_least:
  assumes "xs \<noteq> []"
  shows "min_element xs < length xs" and "xs ! min_element xs = Min (set xs)"
proof -
  from assms obtain k where k: "length xs = Suc k" by (cases xs) auto
  then have "k < length xs" by simp
  from min_element_prefix [OF this] k
  have le: "min_element xs \<le> k" and least: "\<And>j. j \<le> k \<Longrightarrow> xs ! min_element xs \<le> xs ! j"
    by (simp_all add: min_element_def)
  from le k show lt: "min_element xs < length xs" by simp
  show "xs ! min_element xs = Min (set xs)"
  proof (rule Min_eqI [symmetric])
    show "finite (set xs)" by simp
    show "xs ! min_element xs \<in> set xs" using lt by simp
    fix y assume "y \<in> set xs"
    then obtain j where "j < length xs" "xs ! j = y" by (auto simp: in_set_conv_nth)
    with least [of j] k show "xs ! min_element xs \<le> y" by simp
  qed
qed

lemma map2_replicate:
  "map2 f xs (replicate (length xs) p) = map (\<lambda>x. f x p) xs"
  by (induction xs) auto

lemma csr_offsets_Nil: "csr_offsets [] = [0]"
  by (simp add: csr_offsets_def)

lemma csr_offsets_snoc:
  "csr_offsets (rows @ [r]) = csr_offsets rows @ [length (concat rows) + length r]"
  by (simp add: csr_offsets_def)

lemma length_csr_offsets [simp]: "length (csr_offsets rows) = Suc (length rows)"
  by (simp add: csr_offsets_def)

lemma links_csr:
  assumes "i < length rows"
  shows "links \<lparr>array = concat rows, offsets = csr_offsets rows\<rparr> i = rows ! i"
proof -
  have o1: "csr_offsets rows ! i = length (concat (take i rows))"
    using assms by (simp add: csr_offsets_def del: upt_Suc)
  have o2: "csr_offsets rows ! Suc i = length (concat (take i rows)) + length (rows ! i)"
    using assms by (simp add: csr_offsets_def take_Suc_conv_app_nth del: upt_Suc)
  have "concat rows = concat (take i rows) @ rows ! i @ concat (drop (Suc i) rows)"
    using assms by (metis append_take_drop_id concat_append concat.simps(2) Cons_nth_drop_Suc)
  then have "drop (length (concat (take i rows))) (concat rows)
      = rows ! i @ concat (drop (Suc i) rows)"
    by (metis append_eq_conv_conj)
  then show ?thesis by (simp add: links_def o1 o2)
qed

lemma collide_step_ok:
  assumes "i < shape_0 points" and "shape_1 points = 3"
  shows "collide_step sq_dist candidate_cells points eps2 i (offs, colliding)
       = Inr (offs @ [length colliding + length (colliding_row sq_dist candidate_cells points eps2 i)],
              colliding @ colliding_row sq_dist candidate_cells points eps2 i)"
  using assms
  by (simp add: collide_step_def colliding_row_def candidate_distances_def point_row_def
      Let_def map2_replicate)

lemma collide_loop:
  assumes "k \<le> shape_0 points" and "shape_1 points = 3"
  shows "for_each (collide_step sq_dist candidate_cells points eps2) [0..<k] ([0], [])
       = Inr (csr_offsets (map (colliding_row sq_dist candidate_cells points eps2) [0..<k]),
              concat (map (colliding_row sq_dist candidate_cells points eps2) [0..<k]))"
  using assms(1)
proof (induction k)
  case 0
  then show ?case by (simp add: csr_offsets_Nil)
next
  case (Suc k)
  then have "k < shape_0 points" by simp
  from collide_step_ok [OF this assms(2)] Suc show ?case
    by (simp add: for_each_append csr_offsets_snoc)
qed

lemma compute_colliding_cells_ok:
  assumes "num_nodes candidate_cells \<le> shape_0 points" and "shape_1 points = 3"
  shows "compute_colliding_cells sq_dist candidate_cells points eps2
       = Inr \<lparr>array = concat (map (colliding_row sq_dist candidate_cells points eps2)
                          [0..<num_nodes candidate_cells]),
              offsets = csr_offsets (map (colliding_row sq_dist candidate_cells points eps2)
                          [0..<num_nodes candidate_cells])\<rparr>"
  by (simp add: compute_colliding_cells_def collide_loop [OF assms])

lemma colliding_row_cases:
  fixes sq_dist candidate_cells points eps2 i
  defines "cells \<equiv> links candidate_cells i"
    and "ds \<equiv> candidate_distances sq_dist candidate_cells points i"
    and "row \<equiv> colliding_row sq_dist candidate_cells points eps2 i"
  shows "length row \<le> 1"
    and "cells = [] \<Longrightarrow> row = []"
    and "cells \<noteq> [] \<Longrightarrow> \<not> Min (set ds) < eps2 \<Longrightarrow> row = []"
    and "cells \<noteq> [] \<Longrightarrow> Min (set ds) < eps2 \<Longrightarrow>
           \<exists>k<length cells. row = [cells ! k] \<and> ds ! k = Min (set ds)"
proof -
  show "length row \<le> 1" by (simp add: row_def colliding_row_def Let_def)
  show "cells = [] \<Longrightarrow> row = []" by (simp add: row_def cells_def colliding_row_def Let_def)
  have len: "length ds = length cells" by (simp add: ds_def cells_def candidate_distances_def)
  {
    assume ne: "cells \<noteq> []"
    with len have "ds \<noteq> []" by auto
    from min_element_least [OF this] len
    have m: "min_element ds < length cells" "ds ! min_element ds = Min (set ds)" by simp_all
    show "\<not> Min (set ds) < eps2 \<Longrightarrow> row = []"
      using ne m by (simp add: row_def colliding_row_def Let_def cells_def [symmetric] ds_def [symmetric])
    show "Min (set ds) < eps2 \<Longrightarrow> \<exists>k<length cells. row = [cells ! k] \<and> ds ! k = Min (set ds)"
      using ne m by (auto simp: row_def colliding_row_def Let_def cells_def [symmetric] ds_def [symmetric])
  }
qed

lemma first_collision_loop:
  assumes "k \<le> n" and "n \<le> m"
  shows "for_each (first_collision A) [0..<k] (replicate m (- 1))
       = Inr (map (\<lambda>i. if i < k \<and> links A i \<noteq> [] then links A i ! 0 else - 1) [0..<m])"
  using assms(1)
proof (induction k)
  case 0
  then show ?case by (simp add: map_replicate_const)
next
  case (Suc k)
  let ?r = "\<lambda>k. map (\<lambda>i. if i < k \<and> links A i \<noteq> [] then links A i ! 0 else - 1) [0..<m]"
  from Suc.prems assms(2) have km: "k < m" by simp
  have step: "first_collision A k (?r k) = Inr (?r (Suc k))"
  proof (cases "links A k = []")
    case True
    then have "?r (Suc k) = ?r k"
      by (intro map_cong) (auto simp: less_Suc_eq)
    with True show ?thesis by (simp add: first_collision_def del: upt_Suc)
  next
    case False
    have "(?r k)[k := links A k ! 0] = ?r (Suc k)"
    proof (rule nth_equalityI)
      show "length ((?r k)[k := links A k ! 0]) = length (?r (Suc k))" by simp
      fix j assume "j < length ((?r k)[k := links A k ! 0])"
      then have "j < m" by simp
      with False km show "(?r k)[k := links A k ! 0] ! j = ?r (Suc k) ! j"
        by (cases "j = k") (simp_all add: less_Suc_eq)
    qed
    with False km show ?thesis by (simp add: first_collision_def Let_def del: upt_Suc)
  qed
  from Suc have "for_each (first_collision A) [0..<k] (replicate m (- 1)) = Inr (?r k)" by simp
  with step show ?case by (simp add: for_each_append del: map_eq_conv)
qed

text \<open>
  Claim C10. When there is a row of points for every node of the candidate cells,
  \<^verbatim>\<open>compute_colliding_cells\<close> returns an adjacency list with a row for every point, and
  each row holds at most one cell: none when the point has no candidate cell or when
  the least squared distance to its candidates is not below \<^verbatim>\<open>eps2\<close>, and otherwise
  exactly one candidate cell whose squared distance is that least one. Then
  \<^verbatim>\<open>find_local_collisions\<close> returns, for every point, that cell, or -1 when the row is
  empty.
\<close>

theorem at_most_one_colliding_cell:
  assumes "num_nodes candidate_cells \<le> shape_0 points" and "shape_1 points = 3"
  shows "\<exists>A. compute_colliding_cells sq_dist candidate_cells points eps2 = Inr A \<and>
      num_nodes A = num_nodes candidate_cells \<and>
      (\<forall>i<num_nodes candidate_cells.
         length (links A i) \<le> 1 \<and>
         (links candidate_cells i = [] \<longrightarrow> links A i = []) \<and>
         (links candidate_cells i \<noteq> [] \<and>
          \<not> Min (set (candidate_distances sq_dist candidate_cells points i)) < eps2
            \<longrightarrow> links A i = []) \<and>
         (links candidate_cells i \<noteq> [] \<and>
          Min (set (candidate_distances sq_dist candidate_cells points i)) < eps2
            \<longrightarrow> (\<exists>k<length (links candidate_cells i).
                   links A i = [links candidate_cells i ! k] \<and>
                   candidate_distances sq_dist candidate_cells points i ! k
                     = Min (set (candidate_distances sq_dist candidate_cells points i))))) \<and>
      (candidate_cells = compute_collisions points \<longrightarrow>
         (\<exists>collisions.
            find_local_collisions sq_dist compute_collisions points eps2 = Inr collisions \<and>
            length collisions = shape_0 points \<and>
            (\<forall>i < shape_0 points.
               (i < num_nodes candidate_cells \<and> links A i = [collisions ! i]) \<or>
               ((num_nodes candidate_cells \<le> i \<or> links A i = []) \<and> collisions ! i = - 1))))"
proof -
  let ?n = "num_nodes candidate_cells"
  let ?row = "colliding_row sq_dist candidate_cells points eps2"
  let ?A = "\<lparr>array = concat (map ?row [0..<?n]), offsets = csr_offsets (map ?row [0..<?n])\<rparr>"
  have res: "compute_colliding_cells sq_dist candidate_cells points eps2 = Inr ?A"
    by (rule compute_colliding_cells_ok [OF assms])
  have n: "num_nodes ?A = ?n" by (simp add: num_nodes_def)
  have lk: "links ?A i = ?row i" if "i < ?n" for i
    using that links_csr [of i "map ?row [0..<?n]"] by simp
  have rows: "length (links ?A i) \<le> 1 \<and>
         (links candidate_cells i = [] \<longrightarrow> links ?A i = []) \<and>
         (links candidate_cells i \<noteq> [] \<and>
          \<not> Min (set (candidate_distances sq_dist candidate_cells points i)) < eps2
            \<longrightarrow> links ?A i = []) \<and>
         (links candidate_cells i \<noteq> [] \<and>
          Min (set (candidate_distances sq_dist candidate_cells points i)) < eps2
            \<longrightarrow> (\<exists>k<length (links candidate_cells i).
                   links ?A i = [links candidate_cells i ! k] \<and>
                   candidate_distances sq_dist candidate_cells points i ! k
                     = Min (set (candidate_distances sq_dist candidate_cells points i))))"
    if "i < ?n" for i
    unfolding lk [OF that]
    using colliding_row_cases [where sq_dist = sq_dist and candidate_cells = candidate_cells
        and points = points and ?eps2.0 = eps2 and i = i]
    by blast
  have fl: "\<exists>collisions.
            find_local_collisions sq_dist compute_collisions points eps2 = Inr collisions \<and>
            length collisions = shape_0 points \<and>
            (\<forall>i < shape_0 points.
               (i < ?n \<and> links ?A i = [collisions ! i]) \<or>
               ((?n \<le> i \<or> links ?A i = []) \<and> collisions ! i = - 1))"
    if c: "candidate_cells = compute_collisions points"
  proof -
    let ?r = "map (\<lambda>i. if i < ?n \<and> links ?A i \<noteq> [] then links ?A i ! 0 else - 1)
        [0..<shape_0 points]"
    have "for_each (first_collision ?A) [0..<?n] (replicate (shape_0 points) (- 1)) = Inr ?r"
      by (rule first_collision_loop [OF le_refl assms(1)])
    then have f: "find_local_collisions sq_dist compute_collisions points eps2 = Inr ?r"
      using assms(2) res n by (simp add: find_local_collisions_def c [symmetric])
    have "(i < ?n \<and> links ?A i = [?r ! i]) \<or> ((?n \<le> i \<or> links ?A i = []) \<and> ?r ! i = - 1)"
      if i: "i < shape_0 points" for i
    proof (cases "i < ?n \<and> links ?A i \<noteq> []")
      case True
      with rows [of i] have "length (links ?A i) = 1"
        by (cases "links ?A i") auto
      then have "links ?A i = [links ?A i ! 0]"
        by (cases "links ?A i") auto
      with True i show ?thesis by simp
    next
      case False
      with i show ?thesis by auto
    qed
    with f show ?thesis by (intro exI [of _ ?r]) simp
  qed
  from res n rows fl show ?thesis by blast
qed

lemma three_points_cells:
  "compute_colliding_cells segment_sq_dist (three_candidates three_points) three_points (1 / 100)
     = Inr \<lparr>array = [1], offsets = [0, 0, 1, 1]\<rparr>"
  by code_simp

lemma three_points_collisions:
  "find_local_collisions segment_sq_dist three_candidates three_points (1 / 100) = Inr [- 1, 1, - 1]"
  by code_simp

theorem at_most_one_colliding_cell_witness:
  "num_nodes (three_candidates three_points) \<le> shape_0 three_points \<and> shape_1 three_points = 3 \<and>
   compute_colliding_cells segment_sq_dist (three_candidates three_points) three_points (1 / 100)
     = Inr \<lparr>array = [1], offsets = [0, 0, 1, 1]\<rparr> \<and>
   links (three_candidates three_points) 1 = [0, 1, 2] \<and>
   candidate_distances segment_sq_dist (three_candidates three_points) three_points 1
     = [1 / 4, 0, 1 / 4] \<and>
   links \<lparr>array = [1], offsets = [0, 0, 1, 1]\<rparr> 1 = [1] \<and>
   length (links \<lparr>array = [1], offsets = [0, 0, 1, 1]\<rparr> 2) \<le> 1 \<and>
   find_local_collisions segment_sq_dist three_candidates three_points (1 / 100) = Inr [- 1, 1, - 1]"
proof -
  have h1: "num_nodes (three_candidates three_points) \<le> shape_0 three_points" by code_simp
  have h2: "shape_1 three_points = 3" by code_simp
  have h3: "2 < num_nodes (three_candidates three_points)" by code_simp
  have l1: "links (three_candidates three_points) 1 = [0, 1, 2]" by code_simp
  have d1: "candidate_distances segment_sq_dist (three_candidates three_points) three_points 1
     = [1 / 4, 0, 1 / 4]" by code_simp
  have l2: "links \<lparr>array = [1], offsets = [0, 0, 1, 1]\<rparr> 1 = [1]" by code_simp
  from at_most_one_colliding_cell [OF h1 h2, of segment_sq_dist "1 / 100" three_candidates]
  obtain A where A: "compute_colliding_cells segment_sq_dist (three_candidates three_points)
        three_points (1 / 100) = Inr A"
    and rows: "\<forall>i<num_nodes (three_candidates three_points). length (links A i) \<le> 1"
    by blast
  from A have A': "A = \<lparr>array = [1], offsets = [0, 0, 1, 1]\<rparr>"
    by (simp add: three_points_cells)
  from rows h3 have "length (links A 2) \<le> 1" by blast
  with h1 h2 l1 d1 l2 three_points_cells three_points_collisions show ?thesis
    unfolding A' by simp
qed

end
